theory Spec2Isabelle
  imports Main "HOL-Library.Word" "HOL-Library.Signed_Division"
begin

unbundle bit_operations_syntax

section \<open>The property-dispatch engine of dlls/gdi32/dibdrv/graphics.c\<close>

text \<open>
  A shallow embedding of the DispatchEx part of the source file: the slot table
  (\<open>dispex_prop_t\<close>), the object (\<open>DispatchEx\<close>), the lookup functions, get, put,
  enumeration, construction and release.

  Objects live in an explicit store, addressed by \<open>addr\<close>; a \<open>dispex_prop_t *\<close> is the
  pair of its owner's address and its index in the owner's \<open>props\<close> array, and a NULL
  pointer is \<open>None\<close>. Recursion along the \<open>prototype\<close> pointer carries fuel. What is
  undefined behaviour in C (a NULL or dangling dereference, an access outside the
  allocated array, a read of a union member that was never written) is the result
  \<open>Fault\<close>. The code outside the file that the engine calls through pointers (the
  callbacks of a class, the methods of a dispatch object of another implementation)
  is a parameter of the model, the environment \<open>ext\<close>, whose functions transform the
  state as that code would. Calls to the allocator and to the script context are recorded
  in a trace; the allocator's answers are read from an oracle in the state.
\<close>

subsection \<open>Machine types and constants of the platform headers\<close>

type_synonym HRESULT = "32 word"
type_synonym DISPID = "32 word"
type_synonym DWORD = "32 word"
type_synonym WORD = "16 word"
type_synonym addr = nat

definition S_OK :: HRESULT where "S_OK = 0"
definition S_FALSE :: HRESULT where "S_FALSE = 1"
definition E_NOTIMPL :: HRESULT where "E_NOTIMPL = 0x80004001"
definition E_FAIL :: HRESULT where "E_FAIL = 0x80004005"
definition E_INVALIDARG :: HRESULT where "E_INVALIDARG = 0x80070057"
definition E_OUTOFMEMORY :: HRESULT where "E_OUTOFMEMORY = 0x8007000E"
definition DISP_E_MEMBERNOTFOUND :: HRESULT where "DISP_E_MEMBERNOTFOUND = 0x80020003"
definition DISP_E_UNKNOWNNAME :: HRESULT where "DISP_E_UNKNOWNNAME = 0x80020006"
definition DISP_E_PARAMNOTOPTIONAL :: HRESULT where "DISP_E_PARAMNOTOPTIONAL = 0x8002000F"

text \<open>\<open>FAILED(hr)\<close>: the HRESULT, read as a signed LONG, is negative.\<close>

definition FAILED :: "HRESULT \<Rightarrow> bool" where
  "FAILED hr = (sint hr < 0)"

definition DISPID_VALUE :: DISPID where "DISPID_VALUE = 0"
definition DISPID_STARTENUM :: DISPID where "DISPID_STARTENUM = - 1"
definition DISPID_PROPERTYPUT :: DISPID where "DISPID_PROPERTYPUT = - 3"
definition DISPID_THIS :: DISPID where "DISPID_THIS = - 613"

definition DISPATCH_METHOD :: WORD where "DISPATCH_METHOD = 1"
definition DISPATCH_PROPERTYGET :: WORD where "DISPATCH_PROPERTYGET = 2"
definition DISPATCH_PROPERTYPUT :: WORD where "DISPATCH_PROPERTYPUT = 4"
definition DISPATCH_CONSTRUCT :: WORD where "DISPATCH_CONSTRUCT = 0x4000"

definition fdexNameCaseSensitive :: DWORD where "fdexNameCaseSensitive = 1"
definition fdexNameEnsure :: DWORD where "fdexNameEnsure = 2"
definition fdexNameImplicit :: DWORD where "fdexNameImplicit = 4"

text \<open>
  Modelled from the spec: the flag bits \<open>PROPF_METHOD\<close> ("MethodLike") and
  \<open>PROPF_ENUM\<close> ("Enumerable") are declared in jscript.h, which is not among the
  sources; the spec only says that the flags are a bit set holding both. They are two
  distinct bits here.
\<close>

definition PROPF_METHOD :: DWORD where "PROPF_METHOD = 0x100"
definition PROPF_ENUM :: DWORD where "PROPF_ENUM = 0x200"

subsection \<open>Results\<close>

datatype 'a outcome = OutOfFuel | Fault | Ret 'a

subsection \<open>Data\<close>

text \<open>
  A dispatch pointer (never NULL here) designates either an object of this engine,
  whose vtable is \<open>DispatchExVtbl\<close>, by its address, or an object implemented elsewhere.
  A function pointer is the address of code outside the file.
\<close>

datatype iface = Engine addr | Foreign nat

type_synonym fptr = nat

text \<open>
  A VARIANT, as far as the engine looks into it: the tag and the payload of the kinds
  of value the paths of this file tell apart.
\<close>

datatype VARIANT = VT_EMPTY | VT_I4 "32 word" | VT_BSTR string | VT_DISPATCH iface

record DISPPARAMS =
  rgvarg :: "VARIANT list"
  rgdispidNamedArgs :: "DISPID list"

text \<open>
  \<open>builtin_prop_t\<close> and \<open>builtin_info_t\<close> are declared in jscript.h; their fields
  are read off their uses and off the initialiser of \<open>dispex_info\<close>. The callbacks
  \<open>invoke\<close>, \<open>destructor\<close> and \<open>on_put\<close> are function pointers, \<open>None\<close> being NULL.
\<close>

record builtin_prop_t =
  bp_name :: "string option"
  bp_invoke :: "fptr option"
  bp_flags :: DWORD

record builtin_info_t =
  value_prop :: builtin_prop_t
  bi_props :: "builtin_prop_t list"
  destructor :: "fptr option"
  on_put :: "fptr option"

datatype prop_type_t = PROP_VARIANT | PROP_BUILTIN | PROP_PROTREF | PROP_DELETED

text \<open>The union \<open>u\<close> of a slot; \<open>U_unset\<close> is a union nothing has been written to.\<close>

datatype prop_u = U_var VARIANT | U_p builtin_prop_t | U_ref DWORD | U_unset

record dispex_prop_t =
  p_name :: "string option"
  p_type :: prop_type_t
  p_flags :: DWORD
  p_u :: prop_u

text \<open>
  The object. \<open>props\<close> holds the \<open>prop_cnt\<close> slots in use, so \<open>prop_cnt\<close> is its
  length; \<open>buf_size\<close> is the field of that name, and \<open>props_alloc\<close> is the number of
  slots the array was really allocated for (the two differ after a failed realloc).
\<close>

record DispatchEx =
  ref :: "32 word"
  buf_size :: nat
  props_alloc :: nat
  props :: "dispex_prop_t list"
  prototype :: "addr option"
  builtin_info :: builtin_info_t
  ctx :: "nat option"

datatype event =
    EV_SysFreeString string
  | EV_heap_free_name addr nat
  | EV_heap_free_props addr
  | EV_script_addref nat
  | EV_script_release "nat option"
  | EV_heap_free addr

text \<open>
  The state: the store of objects, the answers the allocator will give to the next
  requests (\<open>True\<close> is success; an empty list is a heap that never fails), the calls
  made so far to the allocator's \<open>heap_free\<close>, to \<open>SysFreeString\<close> and to the script
  context, and the addresses of the objects that have been freed. An object that
  \<open>heap_free\<close> has freed leaves the store, so that any later use of it is a fault;
  \<open>freed\<close> only remembers that it once lived there.
\<close>

record world =
  objs :: "addr \<Rightarrow> DispatchEx option"
  allocs :: "bool list"
  trace :: "event list"
  freed :: "addr set"

text \<open>
  The code outside the file. \<open>x_invoke\<close>, \<open>x_destructor\<close> and \<open>x_on_put\<close> run the
  callback at a function pointer on the state, the object pointer and the other
  arguments they are called with (for \<open>invoke\<close>: the mode, the arguments and the
  result variable, \<open>None\<close> when the pointer to it is NULL), and yield the state they
  leave, \<open>invoke\<close> also its HRESULT and what the result variable holds afterwards.
  \<open>x_AddRef\<close>, \<open>x_Release\<close> and \<open>x_Invoke\<close> are the methods of a dispatch object
  implemented elsewhere; \<open>x_Invoke\<close> stands for what \<open>disp_call\<close> does with such an
  object (QueryInterface, then InvokeEx and Release, or Invoke).
\<close>

record ext =
  x_invoke :: "fptr \<Rightarrow> world \<Rightarrow> addr \<Rightarrow> WORD \<Rightarrow> DISPPARAMS \<Rightarrow> VARIANT option \<Rightarrow> HRESULT \<times> VARIANT \<times> world"
  x_destructor :: "fptr \<Rightarrow> world \<Rightarrow> addr \<Rightarrow> world"
  x_on_put :: "fptr \<Rightarrow> world \<Rightarrow> addr \<Rightarrow> string option \<Rightarrow> world"
  x_AddRef :: "nat \<Rightarrow> world \<Rightarrow> world"
  x_Release :: "nat \<Rightarrow> world \<Rightarrow> world"
  x_Invoke :: "nat \<Rightarrow> world \<Rightarrow> DISPID \<Rightarrow> WORD \<Rightarrow> DISPPARAMS \<Rightarrow> VARIANT \<Rightarrow> HRESULT \<times> VARIANT \<times> world"

definition heap_alloc :: "world \<Rightarrow> bool \<times> world" where
  "heap_alloc w = (case allocs w of [] \<Rightarrow> (True, w) | b # bs \<Rightarrow> (b, w\<lparr>allocs := bs\<rparr>))"

definition emit :: "event \<Rightarrow> world \<Rightarrow> world" where
  "emit e w = w\<lparr>trace := trace w @ [e]\<rparr>"

definition set_obj :: "addr \<Rightarrow> DispatchEx \<Rightarrow> world \<Rightarrow> world" where
  "set_obj a d w = w\<lparr>objs := (objs w)(a \<mapsto> d)\<rparr>"

subsection \<open>Strings\<close>

text \<open>
  \<open>strcmpW\<close> of wine/unicode.h on NUL-terminated strings: it walks both strings while
  the characters agree and returns the difference of the first two that differ, the
  terminator counting as 0. A list stands for the characters before the terminator,
  so it is a C string when it holds no NUL.
\<close>

fun strcmpW :: "string \<Rightarrow> string \<Rightarrow> int" where
  "strcmpW [] [] = 0"
| "strcmpW [] (b # bs) = - int (of_char b)"
| "strcmpW (a # as) [] = int (of_char a)"
| "strcmpW (a # as) (b # bs) =
     (if a = b then strcmpW as bs else int (of_char a) - int (of_char b))"

definition cstring :: "string \<Rightarrow> bool" where
  "cstring s = (CHR 0x00 \<notin> set s)"

subsection \<open>get_prop and find_builtin_prop\<close>

definition prop_to_id :: "nat \<Rightarrow> DISPID" where
  "prop_to_id i = word_of_nat i"

definition get_prop :: "DispatchEx \<Rightarrow> DISPID \<Rightarrow> nat option" where
  "get_prop This did =
     (if sint did < 0 \<or> int (length (props This)) \<le> sint did
         \<or> p_type (props This ! nat (sint did)) = PROP_DELETED
      then None else Some (nat (sint did)))"

text \<open>
  The loop of \<open>find_builtin_prop\<close> (\<open>mn\<close> and \<open>mx\<close> are the source's min and max).
  They and \<open>i\<close> are C ints: the sum \<open>min+max\<close> beyond INT_MAX is undefined, \<open>/\<close> truncates, and \<open>props[i]\<close> outside the
  array or a NULL name handed to strcmpW is a fault. The result is the index of the
  descriptor found.
\<close>

function bsearch_loop :: "builtin_prop_t list \<Rightarrow> string option \<Rightarrow> int \<Rightarrow> int \<Rightarrow> nat option outcome" where
  "bsearch_loop ps name mn mx =
     (if mn \<le> mx then
        if 2147483647 < mn + mx \<or> mn + mx < - 2147483648 then Fault
        else
          let i = (mn + mx) sdiv 2 in
          if i < 0 \<or> int (length ps) \<le> i then Fault
          else
            (case (name, bp_name (ps ! nat i)) of
               (Some n, Some m) \<Rightarrow>
                 let r = strcmpW n m in
                 if r = 0 then Ret (Some (nat i))
                 else if r < 0 then bsearch_loop ps name mn (i - 1)
                 else bsearch_loop ps name (i + 1) mx
             | _ \<Rightarrow> Fault)
      else Ret None)"
  by pat_completeness auto
termination
proof (relation "measure (\<lambda>(ps, name, mn, mx). nat (mx - mn + 1))")
  show "wf (measure (\<lambda>(ps, name, mn, mx). nat (mx - mn + 1)))"
    by simp
next
  fix ps :: "builtin_prop_t list" and name :: "string option" and mn mx i :: int
  assume "mn \<le> mx" and "i = (mn + mx) sdiv 2"
  then have "mn \<le> i \<and> i \<le> mx"
    by (auto simp: signed_divide_int_def sgn_if abs_if split: if_splits)
  then show "((ps, name, mn, i - 1), (ps, name, mn, mx))
      \<in> measure (\<lambda>(ps, name, mn, mx). nat (mx - mn + 1))"
    using \<open>mn \<le> mx\<close> by simp
next
  fix ps :: "builtin_prop_t list" and name :: "string option" and mn mx i :: int
  assume "mn \<le> mx" and "i = (mn + mx) sdiv 2"
  then have "mn \<le> i \<and> i \<le> mx"
    by (auto simp: signed_divide_int_def sgn_if abs_if split: if_splits)
  then show "((ps, name, i + 1, mx), (ps, name, mn, mx))
      \<in> measure (\<lambda>(ps, name, mn, mx). nat (mx - mn + 1))"
    using \<open>mn \<le> mx\<close> by simp
qed

declare bsearch_loop.simps [simp del]

text \<open>
  \<open>max = props_cnt-1\<close> is computed on the DWORD \<open>props_cnt\<close> and stored in an int.
  The pointer returned is \<open>props + i\<close>; the descriptor it points to is returned with
  it.
\<close>

definition find_builtin_prop :: "DispatchEx \<Rightarrow> string option \<Rightarrow> builtin_prop_t option outcome" where
  "find_builtin_prop This name =
     (let ps = bi_props (builtin_info This);
          mx = sint (word_of_nat (length ps) - 1 :: 32 word)
      in case bsearch_loop ps name 0 mx of
           Ret (Some i) \<Rightarrow> Ret (Some (ps ! i))
         | Ret None \<Rightarrow> Ret None
         | Fault \<Rightarrow> Fault
         | OutOfFuel \<Rightarrow> OutOfFuel)"

subsection \<open>Sequencing\<close>

fun obind :: "'a outcome \<Rightarrow> ('a \<Rightarrow> 'b outcome) \<Rightarrow> 'b outcome" where
  "obind OutOfFuel f = OutOfFuel"
| "obind Fault f = Fault"
| "obind (Ret x) f = f x"

definition upd_slot :: "addr \<Rightarrow> nat \<Rightarrow> (dispex_prop_t \<Rightarrow> dispex_prop_t) \<Rightarrow> world \<Rightarrow> world" where
  "upd_slot a i f w =
     (case objs w a of
        None \<Rightarrow> w
      | Some d \<Rightarrow> set_obj a (d\<lparr>props := (props d)[i := f (props d ! i)]\<rparr>) w)"

subsection \<open>get_flags\<close>

fun get_flags :: "nat \<Rightarrow> world \<Rightarrow> addr \<Rightarrow> nat \<Rightarrow> (DWORD \<times> world) outcome" where
  "get_flags 0 w This i = OutOfFuel"
| "get_flags (Suc n) w This i =
     (case objs w This of
        None \<Rightarrow> Fault
      | Some d \<Rightarrow>
          if length (props d) \<le> i then Fault
          else if p_type (props d ! i) = PROP_PROTREF then
            (case p_u (props d ! i) of
               U_ref r \<Rightarrow>
                 (case prototype d of
                    None \<Rightarrow> Fault
                  | Some pa \<Rightarrow>
                      (case objs w pa of
                         None \<Rightarrow> Fault
                       | Some pd \<Rightarrow>
                           (case get_prop pd r of
                              None \<Rightarrow>
                                Ret (0, upd_slot This i (\<lambda>s. s\<lparr>p_type := PROP_DELETED\<rparr>) w)
                            | Some j \<Rightarrow> get_flags n w pa j)))
             | _ \<Rightarrow> Fault)
          else Ret (p_flags (props d ! i), w))"

subsection \<open>alloc_prop and alloc_protref\<close>

text \<open>\<open>heap_strdupW\<close>: NULL for a NULL string, else a copy, or NULL when the heap fails.\<close>

definition heap_strdupW :: "world \<Rightarrow> string option \<Rightarrow> string option \<times> world" where
  "heap_strdupW w str =
     (case str of
        None \<Rightarrow> (None, w)
      | Some s \<Rightarrow> (let (ok, w1) = heap_alloc w in (if ok then Some s else None, w1)))"

text \<open>
  \<open>alloc_prop\<close>. When the array is full, \<open>buf_size\<close> is doubled (a DWORD shift) inside
  the argument of the realloc, before its result is known. The slot is then written
  at index \<open>prop_cnt\<close>, which is counted up at once; a write outside the allocated
  array is a fault. The result is the new slot's index, or \<open>None\<close> for NULL.
\<close>

definition alloc_prop :: "world \<Rightarrow> addr \<Rightarrow> string option \<Rightarrow> prop_type_t \<Rightarrow> DWORD \<Rightarrow> (nat option \<times> world) outcome" where
  "alloc_prop w This name ty fl =
     (case objs w This of
        None \<Rightarrow> Fault
      | Some d \<Rightarrow>
          let grow = (buf_size d = length (props d));
              d1 = (if grow then d\<lparr>buf_size := (2 * buf_size d) mod 2 ^ 32\<rparr> else d);
              (ok, w1) = (if grow then heap_alloc (set_obj This d1 w) else (True, w))
          in if \<not> ok then Ret (None, w1)
             else
               let d2 = (if grow then d1\<lparr>props_alloc := buf_size d1\<rparr> else d1) in
               if props_alloc d2 \<le> length (props d2) then Fault
               else
                 let (nm, w2) = heap_strdupW w1 name;
                     slot = \<lparr>p_name = nm, p_type = ty, p_flags = fl, p_u = U_unset\<rparr>;
                     w3 = set_obj This (d2\<lparr>props := props d2 @ [slot]\<rparr>) w2
                 in Ret (if nm = None then None else Some (length (props d2)), w3))"

definition alloc_protref :: "world \<Rightarrow> addr \<Rightarrow> string option \<Rightarrow> DWORD \<Rightarrow> (nat option \<times> world) outcome" where
  "alloc_protref w This name r =
     obind (alloc_prop w This name PROP_PROTREF 0) (\<lambda>(ret, w1).
       case ret of
         None \<Rightarrow> Ret (None, w1)
       | Some i \<Rightarrow> Ret (Some i, upd_slot This i (\<lambda>s. s\<lparr>p_u := U_ref r\<rparr>) w1))"

subsection \<open>find_prop_name and find_prop_name_prot\<close>

text \<open>
  The first loop of \<open>find_prop_name\<close>: the first slot, from index \<open>i\<close> on, that has a
  name equal to \<open>name\<close>. The slot's kind is not looked at. Comparing a slot's name
  with a NULL \<open>name\<close> dereferences NULL.
\<close>

fun scan_names :: "dispex_prop_t list \<Rightarrow> string option \<Rightarrow> nat \<Rightarrow> nat option outcome" where
  "scan_names [] name i = Ret None"
| "scan_names (p # ps) name i =
     (case p_name p of
        None \<Rightarrow> scan_names ps name (Suc i)
      | Some pn \<Rightarrow>
          (case name of
             None \<Rightarrow> Fault
           | Some n \<Rightarrow> if strcmpW pn n = 0 then Ret (Some i) else scan_names ps name (Suc i)))"

text \<open>
  The functions that return an HRESULT and write a slot pointer through \<open>ret\<close> yield
  the HRESULT, the slot's index (\<open>None\<close> for NULL, and for a \<open>ret\<close> left unwritten on
  failure) and the state.
\<close>

definition find_prop_name :: "world \<Rightarrow> addr \<Rightarrow> string option \<Rightarrow> (HRESULT \<times> nat option \<times> world) outcome" where
  "find_prop_name w This name =
     (case objs w This of
        None \<Rightarrow> Fault
      | Some d \<Rightarrow>
          obind (scan_names (props d) name 0) (\<lambda>found.
            case found of
              Some i \<Rightarrow> Ret (S_OK, Some i, w)
            | None \<Rightarrow>
                obind (find_builtin_prop d name) (\<lambda>builtin.
                  case builtin of
                    Some b \<Rightarrow>
                      obind (alloc_prop w This name PROP_BUILTIN (bp_flags b)) (\<lambda>(prop, w1).
                        case prop of
                          None \<Rightarrow> Ret (E_OUTOFMEMORY, None, w1)
                        | Some i \<Rightarrow>
                            Ret (S_OK, Some i, upd_slot This i (\<lambda>s. s\<lparr>p_u := U_p b\<rparr>) w1))
                  | None \<Rightarrow> Ret (S_OK, None, w))))"

fun find_prop_name_prot :: "nat \<Rightarrow> world \<Rightarrow> addr \<Rightarrow> string option \<Rightarrow> bool \<Rightarrow> (HRESULT \<times> nat option \<times> world) outcome" where
  "find_prop_name_prot 0 w This name alloc = OutOfFuel"
| "find_prop_name_prot (Suc n) w This name alloc =
     obind (find_prop_name w This name) (\<lambda>(hres, prop, w1).
       if FAILED hres then Ret (hres, None, w1)
       else
         case prop of
           Some i \<Rightarrow> Ret (S_OK, Some i, w1)
         | None \<Rightarrow>
             (case objs w1 This of
                None \<Rightarrow> Fault
              | Some d \<Rightarrow>
                  obind
                    (case prototype d of
                       None \<Rightarrow> Ret (S_OK, None, w1)
                     | Some pa \<Rightarrow> find_prop_name_prot n w1 pa name False)
                    (\<lambda>(hres, pprop, w2).
                      if FAILED hres then Ret (hres, None, w2)
                      else
                        case (prototype d, pprop) of
                          (Some pa, Some j) \<Rightarrow>
                            (case objs w2 pa of
                               None \<Rightarrow> Fault
                             | Some pd \<Rightarrow>
                                 if length (props pd) \<le> j then Fault
                                 else
                                   obind (alloc_protref w2 This (p_name (props pd ! j)) (word_of_nat j))
                                     (\<lambda>(ret, w3).
                                       case ret of
                                         None \<Rightarrow> Ret (E_OUTOFMEMORY, None, w3)
                                       | Some i \<Rightarrow> Ret (S_OK, Some i, w3)))
                        | _ \<Rightarrow>
                            if alloc then
                              obind (alloc_prop w2 This name PROP_VARIANT PROPF_ENUM) (\<lambda>(ret, w3).
                                case ret of
                                  None \<Rightarrow> Ret (E_OUTOFMEMORY, None, w3)
                                | Some i \<Rightarrow>
                                    Ret (S_OK, Some i,
                                      upd_slot This i (\<lambda>s. s\<lparr>p_u := U_var VT_EMPTY\<rparr>) w3))
                            else Ret (S_OK, None, w2))))"

subsection \<open>Reference counting, and the OLE calls on a VARIANT\<close>

definition DispatchEx_AddRef :: "world \<Rightarrow> addr \<Rightarrow> (32 word \<times> world) outcome" where
  "DispatchEx_AddRef w This =
     (case objs w This of
        None \<Rightarrow> Fault
      | Some d \<Rightarrow> Ret (ref d + 1, set_obj This (d\<lparr>ref := ref d + 1\<rparr>) w))"

text \<open>
  \<open>VariantClear\<close> and \<open>VariantCopy\<close> belong to OLE Automation. As documented,
  \<open>VariantClear\<close> releases what the value owns (a BSTR is freed, a dispatch pointer
  is Released through its vtable) and leaves \<open>VT_EMPTY\<close>; \<open>VariantCopy\<close> clears
  the destination, then copies the source, allocating for a BSTR and calling AddRef
  on a dispatch pointer. For an object of this engine the vtable's Release is
  \<open>DispatchEx_Release\<close>, so the three functions below call each other; they carry
  fuel, which every call of \<open>DispatchEx_Release\<close> and every round of its loop uses up.

  \<open>VariantClear\<close> here is the release of the value \<open>v\<close> that the variable holds; the
  caller then writes \<open>VT_EMPTY\<close> to the variable, which is a fault when the variable
  was a slot of an object that has gone in the meantime.

  \<open>DispatchEx_Release\<close>: at zero the loop \<open>release_props\<close> clears every VARIANT slot
  and frees every slot's name, \<open>j\<close> being the index of the next slot and the bound
  \<open>prop_cnt\<close> being read again in every round; then the array is freed, the script
  context is released, and the object goes to the class's destructor when there is
  one, else it is freed and leaves the store.
\<close>

fun DispatchEx_Release :: "ext \<Rightarrow> nat \<Rightarrow> world \<Rightarrow> addr \<Rightarrow> (32 word \<times> world) outcome"
  and release_props :: "ext \<Rightarrow> nat \<Rightarrow> world \<Rightarrow> addr \<Rightarrow> nat \<Rightarrow> world outcome"
  and VariantClear :: "ext \<Rightarrow> nat \<Rightarrow> world \<Rightarrow> VARIANT \<Rightarrow> world outcome" where
  "DispatchEx_Release x 0 w This = OutOfFuel"
| "DispatchEx_Release x (Suc n) w This =
     (case objs w This of
        None \<Rightarrow> Fault
      | Some d \<Rightarrow>
          let r = ref d - 1;
              w1 = set_obj This (d\<lparr>ref := r\<rparr>) w
          in if r = 0 then
               obind (release_props x n w1 This 0) (\<lambda>w2.
                 case objs w2 This of
                   None \<Rightarrow> Fault
                 | Some d2 \<Rightarrow>
                     let w3 = emit (EV_heap_free_props This) w2;
                         w4 = emit (EV_script_release (ctx d2)) w3
                     in (case destructor (builtin_info d2) of
                           Some h \<Rightarrow> Ret (r, x_destructor x h w4 This)
                         | None \<Rightarrow>
                             Ret (r, emit (EV_heap_free This)
                               (w4\<lparr>objs := (objs w4)(This := None), freed := insert This (freed w4)\<rparr>))))
             else Ret (r, w1))"
| "release_props x 0 w This j = OutOfFuel"
| "release_props x (Suc n) w This j =
     (case objs w This of
        None \<Rightarrow> Fault
      | Some d \<Rightarrow>
          if length (props d) \<le> j then Ret w
          else if p_type (props d ! j) = PROP_VARIANT then
            (case p_u (props d ! j) of
               U_var v \<Rightarrow>
                 obind (VariantClear x n w v) (\<lambda>w1.
                   case objs w1 This of
                     None \<Rightarrow> Fault
                   | Some d1 \<Rightarrow>
                       if length (props d1) \<le> j then Fault
                       else release_props x n
                              (emit (EV_heap_free_name This j)
                                 (upd_slot This j (\<lambda>s. s\<lparr>p_u := U_var VT_EMPTY\<rparr>) w1))
                              This (Suc j))
             | _ \<Rightarrow> Fault)
          else release_props x n (emit (EV_heap_free_name This j) w) This (Suc j))"
| "VariantClear x n w v =
     (case v of
        VT_DISPATCH (Engine a) \<Rightarrow> obind (DispatchEx_Release x n w a) (\<lambda>(r, w1). Ret w1)
      | VT_DISPATCH (Foreign f) \<Rightarrow> Ret (x_Release x f w)
      | VT_BSTR s \<Rightarrow> Ret (emit (EV_SysFreeString s) w)
      | _ \<Rightarrow> Ret w)"

declare VariantClear.simps [simp del]

text \<open>
  \<open>VariantCopy\<close> yields the HRESULT, what the destination holds afterwards, and the
  state. The source is passed by value.
\<close>

definition VariantCopy :: "ext \<Rightarrow> nat \<Rightarrow> world \<Rightarrow> VARIANT \<Rightarrow> VARIANT \<Rightarrow> (HRESULT \<times> VARIANT \<times> world) outcome" where
  "VariantCopy x n w dest src =
     obind (VariantClear x n w dest) (\<lambda>w1.
       case src of
         VT_BSTR s \<Rightarrow>
           (let (ok, w2) = heap_alloc w1
            in if ok then Ret (S_OK, VT_BSTR s, w2) else Ret (E_OUTOFMEMORY, VT_EMPTY, w2))
       | VT_DISPATCH (Engine a) \<Rightarrow>
           obind (DispatchEx_AddRef w1 a) (\<lambda>(r, w2). Ret (S_OK, src, w2))
       | VT_DISPATCH (Foreign f) \<Rightarrow> Ret (S_OK, src, x_AddRef x f w1)
       | _ \<Rightarrow> Ret (S_OK, src, w1))"

subsection \<open>prop_get and prop_put\<close>

text \<open>
  \<open>prop_get\<close>; \<open>retv\<close> is the caller's result variable, returned as it stands after
  the call. The slot reached through a PROTREF is \<open>This->prototype->props+prop->u.ref\<close>,
  taken without a check.
\<close>

fun prop_get :: "ext \<Rightarrow> nat \<Rightarrow> world \<Rightarrow> addr \<Rightarrow> nat \<Rightarrow> DISPPARAMS \<Rightarrow> VARIANT \<Rightarrow> (HRESULT \<times> VARIANT \<times> world) outcome" where
  "prop_get x 0 w This i dp retv = OutOfFuel"
| "prop_get x (Suc n) w This i dp retv =
     (case objs w This of
        None \<Rightarrow> Fault
      | Some d \<Rightarrow>
          if length (props d) \<le> i then Fault
          else
            (case p_type (props d ! i) of
               PROP_BUILTIN \<Rightarrow>
                 (case p_u (props d ! i) of
                    U_p b \<Rightarrow>
                      if bp_flags b AND PROPF_METHOD \<noteq> 0 then Ret (E_NOTIMPL, retv, w)
                      else
                        (case bp_invoke b of
                           None \<Rightarrow> Fault
                         | Some f \<Rightarrow> Ret (x_invoke x f w This DISPATCH_PROPERTYGET dp (Some retv)))
                  | _ \<Rightarrow> Fault)
             | PROP_PROTREF \<Rightarrow>
                 (case p_u (props d ! i) of
                    U_ref r \<Rightarrow>
                      (case prototype d of
                         None \<Rightarrow> Fault
                       | Some pa \<Rightarrow> prop_get x n w pa (unat r) dp retv)
                  | _ \<Rightarrow> Fault)
             | PROP_VARIANT \<Rightarrow>
                 (case p_u (props d ! i) of
                    U_var v \<Rightarrow> VariantCopy x n w retv v
                  | _ \<Rightarrow> Fault)
             | PROP_DELETED \<Rightarrow> Ret (E_FAIL, retv, w)))"

text \<open>
  The part of \<open>prop_put\<close> after the switch: the search for the argument named
  DISPID_PROPERTYPUT, the copy into the slot, and the class's \<open>on_put\<close> hook.
\<close>

definition prop_put_value :: "ext \<Rightarrow> nat \<Rightarrow> world \<Rightarrow> addr \<Rightarrow> nat \<Rightarrow> DISPPARAMS \<Rightarrow> (HRESULT \<times> world) outcome" where
  "prop_put_value x n w This i dp =
     (let k = length (takeWhile (\<lambda>x. x \<noteq> DISPID_PROPERTYPUT) (rgdispidNamedArgs dp)) in
      if k = length (rgdispidNamedArgs dp) then Ret (DISP_E_PARAMNOTOPTIONAL, w)
      else if length (rgvarg dp) \<le> k then Fault
      else
        (case objs w This of
           None \<Rightarrow> Fault
         | Some d \<Rightarrow>
             if length (props d) \<le> i then Fault
             else
               (case p_u (props d ! i) of
                  U_var old \<Rightarrow>
                    obind (VariantCopy x n w old (rgvarg dp ! k)) (\<lambda>(hres, v, w1).
                      case objs w1 This of
                        None \<Rightarrow> Fault
                      | Some d1 \<Rightarrow>
                          if length (props d1) \<le> i then Fault
                          else
                            let w2 = upd_slot This i (\<lambda>s. s\<lparr>p_u := U_var v\<rparr>) w1
                            in if FAILED hres then Ret (hres, w2)
                               else
                                 (case on_put (builtin_info d1) of
                                    Some h \<Rightarrow>
                                      Ret (S_OK, x_on_put x h w2 This (p_name (props d1 ! i)))
                                  | None \<Rightarrow> Ret (S_OK, w2)))
                | _ \<Rightarrow> Fault)))"

text \<open>
  \<open>prop_put\<close>. The switch rewrites the slot first: a BUILTIN slot without the method
  flag hands the call to its descriptor, with a NULL result pointer, and returns; a
  BUILTIN slot with it falls through to the PROTREF case, which turns the slot into
  an empty, enumerable VARIANT; a VARIANT slot is cleared.
\<close>

definition prop_put :: "ext \<Rightarrow> nat \<Rightarrow> world \<Rightarrow> addr \<Rightarrow> nat \<Rightarrow> DISPPARAMS \<Rightarrow> (HRESULT \<times> world) outcome" where
  "prop_put x n w This i dp =
     (case objs w This of
        None \<Rightarrow> Fault
      | Some d \<Rightarrow>
          if length (props d) \<le> i then Fault
          else
            let shadow = upd_slot This i
                  (\<lambda>s. s\<lparr>p_type := PROP_VARIANT, p_flags := PROPF_ENUM, p_u := U_var VT_EMPTY\<rparr>) w
            in
            (case p_type (props d ! i) of
               PROP_BUILTIN \<Rightarrow>
                 if p_flags (props d ! i) AND PROPF_METHOD = 0 then
                   (case p_u (props d ! i) of
                      U_p b \<Rightarrow>
                        (case bp_invoke b of
                           None \<Rightarrow> Fault
                         | Some f \<Rightarrow>
                             (let (hres, v, w1) = x_invoke x f w This DISPATCH_PROPERTYPUT dp None
                              in Ret (hres, w1)))
                    | _ \<Rightarrow> Fault)
                 else prop_put_value x n shadow This i dp
             | PROP_PROTREF \<Rightarrow> prop_put_value x n shadow This i dp
             | PROP_VARIANT \<Rightarrow>
                 (case p_u (props d ! i) of
                    U_var v \<Rightarrow>
                      obind (VariantClear x n w v) (\<lambda>w1.
                        case objs w1 This of
                          None \<Rightarrow> Fault
                        | Some d1 \<Rightarrow>
                            if length (props d1) \<le> i then Fault
                            else prop_put_value x n
                                   (upd_slot This i (\<lambda>s. s\<lparr>p_u := U_var VT_EMPTY\<rparr>) w1) This i dp)
                  | _ \<Rightarrow> Fault)
             | PROP_DELETED \<Rightarrow> Ret (E_FAIL, w)))"

subsection \<open>fill_protrefs\<close>

text \<open>
  The loop of \<open>fill_protrefs\<close> over the prototype's slots, \<open>j\<close> being the index of the
  next one. The loop writes to \<open>This\<close> only, and it is reached only after the
  recursive call on the prototype has returned, which it does not when \<open>This\<close> is
  its own ancestor; so the prototype's slots are those read when the loop starts.
\<close>

fun fill_loop :: "world \<Rightarrow> addr \<Rightarrow> dispex_prop_t list \<Rightarrow> nat \<Rightarrow> (HRESULT \<times> world) outcome" where
  "fill_loop w This [] j = Ret (S_OK, w)"
| "fill_loop w This (iter # rest) j =
     obind (find_prop_name w This (p_name iter)) (\<lambda>(hres, prop, w1).
       if FAILED hres then Ret (hres, w1)
       else
         case prop of
           Some _ \<Rightarrow> fill_loop w1 This rest (Suc j)
         | None \<Rightarrow>
             obind (alloc_protref w1 This (p_name iter) (word_of_nat j)) (\<lambda>(ret, w2).
               case ret of
                 None \<Rightarrow> Ret (E_OUTOFMEMORY, w2)
               | Some _ \<Rightarrow> fill_loop w2 This rest (Suc j)))"

fun fill_protrefs :: "nat \<Rightarrow> world \<Rightarrow> addr \<Rightarrow> (HRESULT \<times> world) outcome" where
  "fill_protrefs 0 w This = OutOfFuel"
| "fill_protrefs (Suc n) w This =
     (case objs w This of
        None \<Rightarrow> Fault
      | Some d \<Rightarrow>
          (case prototype d of
             None \<Rightarrow> Ret (S_OK, w)
           | Some pa \<Rightarrow>
               obind (fill_protrefs n w pa) (\<lambda>(ignored, w1).
                 case objs w1 pa of
                   None \<Rightarrow> Fault
                 | Some pd \<Rightarrow> fill_loop w1 This (props pd) 0)))"

subsection \<open>Calling a slot\<close>

text \<open>
  \<open>set_this\<close> builds the argument block with the receiver in front, unless an
  argument named DISPID_THIS is already there.
\<close>

definition set_this :: "world \<Rightarrow> DISPPARAMS \<Rightarrow> addr \<Rightarrow> HRESULT \<times> DISPPARAMS \<times> world" where
  "set_this w olddp jsthis =
     (if DISPID_THIS \<in> set (rgdispidNamedArgs olddp) then (S_OK, olddp, w)
      else
        let (ok, w1) = heap_alloc w in
        if \<not> ok then (E_OUTOFMEMORY, olddp, w1)
        else
          let args = VT_DISPATCH (Engine jsthis) # rgvarg olddp in
          if rgdispidNamedArgs olddp \<noteq> [] then
            (let (ok2, w2) = heap_alloc w1
             in if \<not> ok2 then (E_OUTOFMEMORY, olddp, w2)
                else (S_OK,
                  \<lparr>rgvarg = args, rgdispidNamedArgs = DISPID_THIS # rgdispidNamedArgs olddp\<rparr>, w2))
          else (S_OK, \<lparr>rgvarg = args, rgdispidNamedArgs = [DISPID_THIS]\<rparr>, w1))"

text \<open>
  \<open>invoke_prop_func\<close>, \<open>jsdisp_call\<close> and \<open>disp_call\<close> call each other: a VARIANT
  slot that holds a dispatch pointer is called through \<open>disp_call\<close>, which, for an
  object of this engine, takes a reference to it (\<open>iface_to_jsdisp\<close>, that is
  \<open>DispatchEx_QueryInterface\<close> for IID_IDispatchJS), calls \<open>jsdisp_call\<close> and
  releases the reference; for any other object it calls that object. The bodies of
  \<open>jsdisp_call\<close> and \<open>disp_call\<close> come first, with \<open>invoke_prop_func\<close> as the
  parameter \<open>call\<close>; the recursion is that of \<open>invoke_prop_func\<close>, on the fuel.
\<close>

definition jsdisp_call_body ::
  "(world \<Rightarrow> addr \<Rightarrow> addr \<Rightarrow> nat \<Rightarrow> WORD \<Rightarrow> DISPPARAMS \<Rightarrow> VARIANT \<Rightarrow> (HRESULT \<times> VARIANT \<times> world) outcome)
    \<Rightarrow> world \<Rightarrow> addr \<Rightarrow> DISPID \<Rightarrow> WORD \<Rightarrow> DISPPARAMS \<Rightarrow> VARIANT \<Rightarrow> (HRESULT \<times> VARIANT \<times> world) outcome" where
  "jsdisp_call_body call w disp did flags dp retv =
     (case objs w disp of
        None \<Rightarrow> Fault
      | Some d \<Rightarrow>
          (case get_prop d did of
             None \<Rightarrow> Ret (DISP_E_MEMBERNOTFOUND, VT_EMPTY, w)
           | Some i \<Rightarrow> call w disp disp i flags dp VT_EMPTY))"

definition disp_call_body ::
  "(world \<Rightarrow> addr \<Rightarrow> addr \<Rightarrow> nat \<Rightarrow> WORD \<Rightarrow> DISPPARAMS \<Rightarrow> VARIANT \<Rightarrow> (HRESULT \<times> VARIANT \<times> world) outcome)
    \<Rightarrow> ext \<Rightarrow> nat \<Rightarrow> world \<Rightarrow> iface \<Rightarrow> DISPID \<Rightarrow> WORD \<Rightarrow> DISPPARAMS \<Rightarrow> VARIANT
    \<Rightarrow> (HRESULT \<times> VARIANT \<times> world) outcome" where
  "disp_call_body call x n w disp did flags dp retv =
     (case disp of
        Engine a \<Rightarrow>
          obind (DispatchEx_AddRef w a) (\<lambda>(r1, w1).
            obind (jsdisp_call_body call w1 a did flags dp retv) (\<lambda>(hres, v, w2).
              obind (DispatchEx_Release x n w2 a) (\<lambda>(r2, w3). Ret (hres, v, w3))))
      | Foreign f \<Rightarrow> Ret (x_Invoke x f w did flags dp VT_EMPTY))"

primrec invoke_prop_func :: "ext \<Rightarrow> nat \<Rightarrow> world \<Rightarrow> addr \<Rightarrow> addr \<Rightarrow> nat \<Rightarrow> WORD \<Rightarrow> DISPPARAMS \<Rightarrow> VARIANT
    \<Rightarrow> (HRESULT \<times> VARIANT \<times> world) outcome" where
  "invoke_prop_func x 0 w This jsthis i flags dp retv = OutOfFuel"
| "invoke_prop_func x (Suc n) w This jsthis i flags dp retv =
     (case objs w This of
        None \<Rightarrow> Fault
      | Some d \<Rightarrow>
          if length (props d) \<le> i then Fault
          else
            (case p_type (props d ! i) of
               PROP_BUILTIN \<Rightarrow>
                 if flags = DISPATCH_CONSTRUCT \<and> p_flags (props d ! i) AND ucast DISPATCH_METHOD \<noteq> 0
                 then Ret (E_INVALIDARG, retv, w)
                 else
                   (case p_u (props d ! i) of
                      U_p b \<Rightarrow>
                        (case bp_invoke b of
                           None \<Rightarrow> Fault
                         | Some f \<Rightarrow> Ret (x_invoke x f w jsthis flags dp (Some retv)))
                    | _ \<Rightarrow> Fault)
             | PROP_PROTREF \<Rightarrow>
                 (case p_u (props d ! i) of
                    U_ref r \<Rightarrow>
                      (case prototype d of
                         None \<Rightarrow> Fault
                       | Some pa \<Rightarrow> invoke_prop_func x n w pa jsthis (unat r) flags dp retv)
                  | _ \<Rightarrow> Fault)
             | PROP_VARIANT \<Rightarrow>
                 (case p_u (props d ! i) of
                    U_var (VT_DISPATCH target) \<Rightarrow>
                      (let (hres, new_dp, w1) = set_this w dp jsthis
                       in if FAILED hres then Ret (hres, retv, w1)
                          else disp_call_body (invoke_prop_func x n) x n w1 target
                                 DISPID_VALUE flags new_dp retv)
                  | U_var _ \<Rightarrow> Ret (E_FAIL, retv, w)
                  | _ \<Rightarrow> Fault)
             | PROP_DELETED \<Rightarrow> Ret (E_FAIL, retv, w)))"



subsection \<open>The IDispatchEx methods\<close>

definition DispatchEx_GetDispID :: "nat \<Rightarrow> world \<Rightarrow> addr \<Rightarrow> string option \<Rightarrow> DWORD \<Rightarrow> (HRESULT \<times> DISPID option \<times> world) outcome" where
  "DispatchEx_GetDispID n w This bstrName grfdex =
     (if grfdex AND NOT (fdexNameCaseSensitive OR fdexNameEnsure OR fdexNameImplicit) \<noteq> 0
      then Ret (E_NOTIMPL, None, w)
      else
        obind (find_prop_name_prot n w This bstrName (grfdex AND fdexNameEnsure \<noteq> 0))
          (\<lambda>(hres, prop, w1).
            if FAILED hres then Ret (hres, None, w1)
            else
              case prop of
                Some i \<Rightarrow> Ret (S_OK, Some (prop_to_id i), w1)
              | None \<Rightarrow> Ret (DISP_E_UNKNOWNNAME, None, w1)))"

text \<open>
  \<open>DispatchEx_InvokeEx\<close>, called with a result variable, which it empties first.
\<close>

definition DispatchEx_InvokeEx :: "ext \<Rightarrow> nat \<Rightarrow> world \<Rightarrow> addr \<Rightarrow> DISPID \<Rightarrow> WORD \<Rightarrow> DISPPARAMS
    \<Rightarrow> (HRESULT \<times> VARIANT \<times> world) outcome" where
  "DispatchEx_InvokeEx x n w This did wFlags pdp =
     (case objs w This of
        None \<Rightarrow> Fault
      | Some d \<Rightarrow>
          (case get_prop d did of
             None \<Rightarrow> Ret (DISP_E_MEMBERNOTFOUND, VT_EMPTY, w)
           | Some i \<Rightarrow>
               if p_type (props d ! i) = PROP_DELETED then Ret (DISP_E_MEMBERNOTFOUND, VT_EMPTY, w)
               else if wFlags = DISPATCH_METHOD \<or> wFlags = DISPATCH_CONSTRUCT
                 then invoke_prop_func x n w This This i wFlags pdp VT_EMPTY
               else if wFlags = DISPATCH_PROPERTYGET then prop_get x n w This i pdp VT_EMPTY
               else if wFlags = DISPATCH_PROPERTYPUT
                 then obind (prop_put x n w This i pdp) (\<lambda>(hres, w1). Ret (hres, VT_EMPTY, w1))
               else Ret (E_INVALIDARG, VT_EMPTY, w)))"

text \<open>
  The scan of \<open>DispatchEx_GetNextDispID\<close> from slot \<open>i\<close>, with \<open>k\<close> slots left up to
  \<open>prop_cnt\<close> (\<open>get_flags\<close> rewrites kinds and never changes a \<open>prop_cnt\<close>).
\<close>

fun enum_loop :: "nat \<Rightarrow> world \<Rightarrow> addr \<Rightarrow> nat \<Rightarrow> nat \<Rightarrow> (HRESULT \<times> DISPID option \<times> world) outcome" where
  "enum_loop n w This i 0 = Ret (S_FALSE, Some DISPID_STARTENUM, w)"
| "enum_loop n w This i (Suc k) =
     (case objs w This of
        None \<Rightarrow> Fault
      | Some d \<Rightarrow>
          if length (props d) \<le> i then Fault
          else if p_name (props d ! i) \<noteq> None then
            obind (get_flags n w This i) (\<lambda>(fl, w1).
              if fl AND PROPF_ENUM \<noteq> 0 then Ret (S_OK, Some (prop_to_id i), w1)
              else enum_loop n w1 This (Suc i) k)
          else enum_loop n w This (Suc i) k)"

text \<open>
  \<open>DispatchEx_GetNextDispID\<close>; the second component is what is written to \<open>*pid\<close>,
  \<open>None\<close> when nothing is.
\<close>

definition DispatchEx_GetNextDispID :: "nat \<Rightarrow> world \<Rightarrow> addr \<Rightarrow> DWORD \<Rightarrow> DISPID \<Rightarrow> (HRESULT \<times> DISPID option \<times> world) outcome" where
  "DispatchEx_GetNextDispID n w This grfdex did =
     obind (if did = DISPID_STARTENUM then fill_protrefs n w This else Ret (S_OK, w))
       (\<lambda>(hres, w1).
         if FAILED hres then Ret (hres, None, w1)
         else
           case objs w1 This of
             None \<Rightarrow> Fault
           | Some d \<Rightarrow>
               (case get_prop d (did + 1) of
                  None \<Rightarrow> Ret (S_FALSE, Some DISPID_STARTENUM, w1)
                | Some i \<Rightarrow> enum_loop n w1 This i (length (props d) - i)))"

subsection \<open>Construction\<close>

definition jsdisp_set_prot_prop :: "world \<Rightarrow> addr \<Rightarrow> addr \<Rightarrow> (HRESULT \<times> world) outcome" where
  "jsdisp_set_prot_prop w dispex proto =
     (case objs w dispex of
        None \<Rightarrow> Fault
      | Some d \<Rightarrow>
          if length (props d) < 2 then Fault
          else if p_name (props d ! 1) = None then Ret (E_OUTOFMEMORY, w)
          else Ret (S_OK,
            upd_slot dispex 1
              (\<lambda>s. s\<lparr>p_type := PROP_VARIANT, p_flags := 0, p_u := U_var (VT_DISPATCH (Engine proto))\<rparr>) w))"

text \<open>
  \<open>init_dispex\<close> fills the object at \<open>dispex\<close>, whose memory the caller has allocated.
  \<open>SysAllocString\<close> is an allocation like the others. The fields are written in the
  source's order, so that the object released on the failure path is the object as
  it stands then: \<open>ctx\<close> is assigned last.
\<close>

definition init_dispex :: "ext \<Rightarrow> nat \<Rightarrow> world \<Rightarrow> addr \<Rightarrow> nat \<Rightarrow> builtin_info_t \<Rightarrow> addr option \<Rightarrow> (HRESULT \<times> world) outcome" where
  "init_dispex x n w dispex sctx info proto =
     (case objs w dispex of
        None \<Rightarrow> Fault
      | Some d0 \<Rightarrow>
          let d1 = d0\<lparr>ref := 1, builtin_info := info, buf_size := 4\<rparr>;
              (ok, w1) = heap_alloc (set_obj dispex d1 w)
          in if \<not> ok then Ret (E_OUTOFMEMORY, set_obj dispex (d1\<lparr>props := [], props_alloc := 0\<rparr>) w1)
             else
               obind
                 (case proto of
                    None \<Rightarrow> Ret w1
                  | Some pa \<Rightarrow> obind (DispatchEx_AddRef w1 pa) (\<lambda>(r, w2). Ret w2))
                 (\<lambda>w2.
                   let (nm, w3) = heap_strdupW w2 (Some ''prototype'');
                       slot0 = \<lparr>p_name = None,
                                p_type = (if bp_invoke (value_prop info) \<noteq> None
                                          then PROP_BUILTIN else PROP_DELETED),
                                p_flags = 0,
                                p_u = (if bp_invoke (value_prop info) \<noteq> None
                                       then U_p (value_prop info) else U_unset)\<rparr>;
                       slot1 = \<lparr>p_name = nm, p_type = PROP_DELETED, p_flags = 0, p_u = U_unset\<rparr>;
                       w4 = (case objs w3 dispex of
                               None \<Rightarrow> w3
                             | Some d2 \<Rightarrow>
                                 set_obj dispex
                                   (d2\<lparr>props := [slot0, slot1], props_alloc := 4, prototype := proto\<rparr>) w3)
                   in
                   obind
                     (case proto of
                        None \<Rightarrow> Ret (S_OK, w4)
                      | Some pa \<Rightarrow> jsdisp_set_prot_prop w4 dispex pa)
                     (\<lambda>(hres, w5).
                       if FAILED hres then
                         obind (DispatchEx_Release x n w5 dispex) (\<lambda>(r, w6). Ret (hres, w6))
                       else
                         case objs w5 dispex of
                           None \<Rightarrow> Fault
                         | Some d3 \<Rightarrow>
                             Ret (S_OK,
                               set_obj dispex (d3\<lparr>ctx := Some sctx\<rparr>) (emit (EV_script_addref sctx) w5)))))"

text \<open>The memory \<open>heap_alloc_zero\<close> returns, and the class \<open>dispex_info\<close>.\<close>

definition dispex_info :: builtin_info_t where
  "dispex_info =
     \<lparr>value_prop = \<lparr>bp_name = None, bp_invoke = None, bp_flags = 0\<rparr>,
      bi_props = [], destructor = None, on_put = None\<rparr>"

definition zero_DispatchEx :: DispatchEx where
  "zero_DispatchEx =
     \<lparr>ref = 0, buf_size = 0, props_alloc = 0, props = [], prototype = None,
      builtin_info = dispex_info, ctx = None\<rparr>"

text \<open>
  \<open>create_dispex\<close>; \<open>ret\<close> is the address the allocator hands out for the object.
\<close>

definition create_dispex :: "ext \<Rightarrow> nat \<Rightarrow> world \<Rightarrow> addr \<Rightarrow> nat \<Rightarrow> builtin_info_t option \<Rightarrow> addr option
    \<Rightarrow> (HRESULT \<times> addr option \<times> world) outcome" where
  "create_dispex x n w ret sctx info proto =
     (let (ok, w1) = heap_alloc w in
      if \<not> ok then Ret (E_OUTOFMEMORY, None, w1)
      else
        obind
          (init_dispex x n (set_obj ret zero_DispatchEx w1) ret sctx
             (case info of None \<Rightarrow> dispex_info | Some b \<Rightarrow> b) proto)
          (\<lambda>(hres, w2). if FAILED hres then Ret (hres, None, w2) else Ret (S_OK, Some ret, w2)))"

section \<open>Predicates of the claims and fixtures\<close>

subsection \<open>Sorted descriptor arrays\<close>

text \<open>
  A descriptor array as a class must supply it: every descriptor has a name, which is
  a C string, and the names ascend strictly in the order of \<open>strcmpW\<close>.
\<close>

definition named_cstrings :: "builtin_prop_t list \<Rightarrow> bool" where
  "named_cstrings ps = list_all (\<lambda>p. case bp_name p of Some x \<Rightarrow> cstring x | None \<Rightarrow> False) ps"

definition name_less :: "builtin_prop_t \<Rightarrow> builtin_prop_t \<Rightarrow> bool" where
  "name_less a b = (case (bp_name a, bp_name b) of (Some x, Some y) \<Rightarrow> strcmpW x y < 0 | _ \<Rightarrow> False)"

definition sorted_by_name :: "builtin_prop_t list \<Rightarrow> bool" where
  "sorted_by_name ps = sorted_wrt name_less ps"

definition class_abc :: builtin_info_t where
  "class_abc =
     \<lparr>value_prop = \<lparr>bp_name = None, bp_invoke = None, bp_flags = 0\<rparr>,
      bi_props = [\<lparr>bp_name = Some ''abs'', bp_invoke = None, bp_flags = PROPF_METHOD\<rparr>,
                  \<lparr>bp_name = Some ''greet'', bp_invoke = None, bp_flags = PROPF_METHOD\<rparr>,
                  \<lparr>bp_name = Some ''length'', bp_invoke = None, bp_flags = 0\<rparr>],
      destructor = None, on_put = None\<rparr>"

definition obj_abc :: DispatchEx where
  "obj_abc = zero_DispatchEx\<lparr>builtin_info := class_abc\<rparr>"

subsection \<open>How a table may change\<close>

text \<open>
  \<open>slot_step\<close> relates a slot before and after an operation: the name stays, and
  either kind and flags stay, or a PROTREF becomes DELETED, or a BUILTIN or PROTREF
  becomes an enumerable VARIANT. \<open>table_step\<close> lifts it to an object, whose table
  may also have grown at the end, and \<open>store_step\<close> to the store, in which no object
  appears or disappears. \<open>table_grows K\<close> is the special case where the old slots are
  untouched and every appended slot has a kind in \<open>K\<close>.
\<close>

definition slot_step :: "dispex_prop_t \<Rightarrow> dispex_prop_t \<Rightarrow> bool" where
  "slot_step s s' =
     (p_name s' = p_name s \<and>
      (p_type s' = p_type s \<and> p_flags s' = p_flags s
       \<or> p_type s = PROP_PROTREF \<and> p_type s' = PROP_DELETED \<and> p_flags s' = p_flags s
       \<or> (p_type s = PROP_BUILTIN \<or> p_type s = PROP_PROTREF)
           \<and> p_type s' = PROP_VARIANT \<and> p_flags s' = PROPF_ENUM))"

definition table_step :: "DispatchEx \<Rightarrow> DispatchEx \<Rightarrow> bool" where
  "table_step d d' =
     (prototype d' = prototype d \<and> builtin_info d' = builtin_info d
      \<and> length (props d) \<le> length (props d')
      \<and> (\<forall>i<length (props d). slot_step (props d ! i) (props d' ! i)))"

definition store_step :: "world \<Rightarrow> world \<Rightarrow> bool" where
  "store_step w w' = (\<forall>a. rel_option table_step (objs w a) (objs w' a))"

definition table_grows :: "(prop_type_t \<Rightarrow> bool) \<Rightarrow> DispatchEx \<Rightarrow> DispatchEx \<Rightarrow> bool" where
  "table_grows K d d' =
     (prototype d' = prototype d \<and> builtin_info d' = builtin_info d
      \<and> (\<exists>new. props d' = props d @ new \<and> list_all (\<lambda>s. K (p_type s)) new))"

definition grows_with :: "(addr \<Rightarrow> prop_type_t \<Rightarrow> bool) \<Rightarrow> world \<Rightarrow> world \<Rightarrow> bool" where
  "grows_with K w w' = (\<forall>a. rel_option (table_grows (K a)) (objs w a) (objs w' a))"

definition lookup_kinds :: "addr \<Rightarrow> bool \<Rightarrow> addr \<Rightarrow> prop_type_t \<Rightarrow> bool" where
  "lookup_kinds This alloc a t =
     (t = PROP_BUILTIN \<or> t = PROP_PROTREF \<or> (alloc \<and> a = This \<and> t = PROP_VARIANT))"

definition cache_kinds :: "addr \<Rightarrow> prop_type_t \<Rightarrow> bool" where
  "cache_kinds a t = (t = PROP_BUILTIN \<or> t = PROP_PROTREF)"

subsection \<open>Observing a slot, and fixtures\<close>

definition slot_at :: "world \<Rightarrow> addr \<Rightarrow> nat \<Rightarrow> dispex_prop_t option" where
  "slot_at w a i =
     (case objs w a of
        None \<Rightarrow> None
      | Some d \<Rightarrow> if i < length (props d) then Some (props d ! i) else None)"

text \<open>
  \<open>slot_named w a i name\<close>: the object at \<open>a\<close> has a slot \<open>i\<close>, whose name compares
  equal to \<open>name\<close> under \<open>strcmpW\<close>.
\<close>

definition slot_named :: "world \<Rightarrow> addr \<Rightarrow> nat \<Rightarrow> string option \<Rightarrow> bool" where
  "slot_named w a i name =
     (case (slot_at w a i, name) of
        (Some s, Some nm) \<Rightarrow> (case p_name s of Some pn \<Rightarrow> strcmpW pn nm = 0 | None \<Rightarrow> False)
      | _ \<Rightarrow> False)"

definition plain_x :: DispatchEx where
  "plain_x =
     \<lparr>ref = 1, buf_size = 4, props_alloc = 4,
      props = [\<lparr>p_name = None, p_type = PROP_DELETED, p_flags = 0, p_u = U_unset\<rparr>,
               \<lparr>p_name = Some ''prototype'', p_type = PROP_DELETED, p_flags = 0, p_u = U_unset\<rparr>,
               \<lparr>p_name = Some ''x'', p_type = PROP_VARIANT, p_flags = PROPF_ENUM, p_u = U_var (VT_I4 5)\<rparr>],
      prototype = None, builtin_info = dispex_info, ctx = Some 0\<rparr>"

definition world_x :: world where
  "world_x = \<lparr>objs = Map.empty(1 \<mapsto> plain_x), allocs = [], trace = [], freed = {}\<rparr>"

definition no_args :: DISPPARAMS where
  "no_args = \<lparr>rgvarg = [], rgdispidNamedArgs = []\<rparr>"

definition class_greet :: builtin_info_t where
  "class_greet =
     \<lparr>value_prop = \<lparr>bp_name = None, bp_invoke = None, bp_flags = 0\<rparr>,
      bi_props = [\<lparr>bp_name = Some ''greet'', bp_invoke = Some 0,
                   bp_flags = PROPF_METHOD\<rparr>],
      destructor = None, on_put = None\<rparr>"

definition proto_P :: DispatchEx where
  "proto_P =
     \<lparr>ref = 2, buf_size = 4, props_alloc = 4,
      props = [\<lparr>p_name = None, p_type = PROP_DELETED, p_flags = 0, p_u = U_unset\<rparr>,
               \<lparr>p_name = Some ''prototype'', p_type = PROP_DELETED, p_flags = 0, p_u = U_unset\<rparr>],
      prototype = None, builtin_info = class_greet, ctx = Some 0\<rparr>"

definition child_O :: DispatchEx where
  "child_O =
     \<lparr>ref = 1, buf_size = 4, props_alloc = 4,
      props = [\<lparr>p_name = None, p_type = PROP_DELETED, p_flags = 0, p_u = U_unset\<rparr>,
               \<lparr>p_name = Some ''prototype'', p_type = PROP_VARIANT, p_flags = 0,
                 p_u = U_var (VT_DISPATCH (Engine 1))\<rparr>],
      prototype = Some 1, builtin_info = dispex_info, ctx = Some 0\<rparr>"

definition world_PO :: world where
  "world_PO = \<lparr>objs = Map.empty(1 \<mapsto> proto_P, 2 \<mapsto> child_O), allocs = [], trace = [], freed = {}\<rparr>"

definition full_table :: DispatchEx where
  "full_table =
     \<lparr>ref = 1, buf_size = 4, props_alloc = 4,
      props = [\<lparr>p_name = None, p_type = PROP_DELETED, p_flags = 0, p_u = U_unset\<rparr>,
               \<lparr>p_name = Some ''prototype'', p_type = PROP_DELETED, p_flags = 0, p_u = U_unset\<rparr>,
               \<lparr>p_name = Some ''x'', p_type = PROP_VARIANT, p_flags = PROPF_ENUM, p_u = U_var (VT_I4 5)\<rparr>,
               \<lparr>p_name = Some ''y'', p_type = PROP_VARIANT, p_flags = PROPF_ENUM, p_u = U_var (VT_I4 6)\<rparr>],
      prototype = None, builtin_info = dispex_info, ctx = Some 0\<rparr>"

definition world_full :: world where
  "world_full = \<lparr>objs = Map.empty(1 \<mapsto> full_table), allocs = [False], trace = [], freed = {}\<rparr>"

definition world_x_oom :: world where
  "world_x_oom = world_x\<lparr>allocs := [False]\<rparr>"

definition world_init :: world where
  "world_init = \<lparr>objs = Map.empty(1 \<mapsto> proto_P, 3 \<mapsto> zero_DispatchEx), allocs = [True, False], trace = [], freed = {}\<rparr>"

definition stale_P :: DispatchEx where
  "stale_P =
     \<lparr>ref = 2, buf_size = 4, props_alloc = 4,
      props = [\<lparr>p_name = None, p_type = PROP_DELETED, p_flags = 0, p_u = U_unset\<rparr>,
               \<lparr>p_name = Some ''prototype'', p_type = PROP_DELETED, p_flags = 0, p_u = U_unset\<rparr>,
               \<lparr>p_name = Some ''gone'', p_type = PROP_DELETED, p_flags = PROPF_ENUM, p_u = U_unset\<rparr>],
      prototype = None, builtin_info = dispex_info, ctx = Some 0\<rparr>"

definition stale_O :: DispatchEx where
  "stale_O =
     \<lparr>ref = 1, buf_size = 4, props_alloc = 4,
      props = [\<lparr>p_name = None, p_type = PROP_DELETED, p_flags = 0, p_u = U_unset\<rparr>,
               \<lparr>p_name = Some ''prototype'', p_type = PROP_VARIANT, p_flags = 0,
                 p_u = U_var (VT_DISPATCH (Engine 1))\<rparr>,
               \<lparr>p_name = Some ''gone'', p_type = PROP_PROTREF, p_flags = 0, p_u = U_ref 2\<rparr>],
      prototype = Some 1, builtin_info = dispex_info, ctx = Some 0\<rparr>"

definition world_stale :: world where
  "world_stale = \<lparr>objs = Map.empty(1 \<mapsto> stale_P, 2 \<mapsto> stale_O), allocs = [], trace = [], freed = {}\<rparr>"

text \<open>
  An environment in which the code outside the file leaves the state alone: every
  \<open>invoke\<close> answers S_OK with an empty value, a call of a foreign object fails.
\<close>

definition quiet_ext :: ext where
  "quiet_ext =
     \<lparr>x_invoke = (\<lambda>f w a flags dp rv. (S_OK, VT_EMPTY, w)),
      x_destructor = (\<lambda>h w a. w),
      x_on_put = (\<lambda>h w a name. w),
      x_AddRef = (\<lambda>f w. w),
      x_Release = (\<lambda>f w. w),
      x_Invoke = (\<lambda>f w did flags dp rv. (E_FAIL, rv, w))\<rparr>"

definition alloc_ok :: "world \<Rightarrow> bool" where
  "alloc_ok w = (case allocs w of [] \<Rightarrow> True | b # bs \<Rightarrow> b)"

definition length_desc :: builtin_prop_t where
  "length_desc =
     \<lparr>bp_name = Some ''length'', bp_invoke = Some 0, bp_flags = 0\<rparr>"

definition accessor_O :: DispatchEx where
  "accessor_O =
     \<lparr>ref = 1, buf_size = 4, props_alloc = 4,
      props = [\<lparr>p_name = None, p_type = PROP_DELETED, p_flags = 0, p_u = U_unset\<rparr>,
               \<lparr>p_name = Some ''prototype'', p_type = PROP_VARIANT, p_flags = 0,
                 p_u = U_var (VT_DISPATCH (Engine 1))\<rparr>,
               \<lparr>p_name = Some ''length'', p_type = PROP_BUILTIN, p_flags = 0, p_u = U_p length_desc\<rparr>],
      prototype = Some 1,
      builtin_info = \<lparr>value_prop = \<lparr>bp_name = None, bp_invoke = None, bp_flags = 0\<rparr>,
                       bi_props = [length_desc], destructor = None, on_put = None\<rparr>,
      ctx = Some 0\<rparr>"

definition world_accessor :: world where
  "world_accessor = \<lparr>objs = Map.empty(1 \<mapsto> proto_P, 2 \<mapsto> accessor_O), allocs = [], trace = [], freed = {}\<rparr>"

definition put_5 :: DISPPARAMS where
  "put_5 = \<lparr>rgvarg = [VT_I4 5], rgdispidNamedArgs = [DISPID_PROPERTYPUT]\<rparr>"

definition shadow_O :: DispatchEx where
  "shadow_O =
     \<lparr>ref = 1, buf_size = 4, props_alloc = 4,
      props = [\<lparr>p_name = None, p_type = PROP_DELETED, p_flags = 0, p_u = U_unset\<rparr>,
               \<lparr>p_name = Some ''prototype'', p_type = PROP_VARIANT, p_flags = 0,
                 p_u = U_var (VT_DISPATCH (Engine 1))\<rparr>,
               \<lparr>p_name = Some ''greet'', p_type = PROP_PROTREF, p_flags = 0, p_u = U_ref 2\<rparr>],
      prototype = Some 1, builtin_info = dispex_info, ctx = Some 0\<rparr>"

definition shadow_P :: DispatchEx where
  "shadow_P =
     \<lparr>ref = 2, buf_size = 4, props_alloc = 4,
      props = [\<lparr>p_name = None, p_type = PROP_DELETED, p_flags = 0, p_u = U_unset\<rparr>,
               \<lparr>p_name = Some ''prototype'', p_type = PROP_DELETED, p_flags = 0, p_u = U_unset\<rparr>,
               \<lparr>p_name = Some ''greet'', p_type = PROP_VARIANT, p_flags = PROPF_ENUM,
                 p_u = U_var (VT_BSTR ''hello'')\<rparr>],
      prototype = None, builtin_info = dispex_info, ctx = Some 0\<rparr>"

definition own_O :: DispatchEx where
  "own_O =
     \<lparr>ref = 1, buf_size = 4, props_alloc = 4,
      props = [\<lparr>p_name = None, p_type = PROP_DELETED, p_flags = 0, p_u = U_unset\<rparr>,
               \<lparr>p_name = Some ''prototype'', p_type = PROP_VARIANT, p_flags = 0,
                 p_u = U_var (VT_DISPATCH (Engine 1))\<rparr>,
               \<lparr>p_name = Some ''greet'', p_type = PROP_VARIANT, p_flags = PROPF_ENUM,
                 p_u = U_var (VT_I4 7)\<rparr>],
      prototype = Some 1, builtin_info = dispex_info, ctx = Some 0\<rparr>"

definition world_own :: world where
  "world_own = \<lparr>objs = Map.empty(1 \<mapsto> shadow_P, 2 \<mapsto> own_O), allocs = [], trace = [], freed = {}\<rparr>"

definition world_shadow :: world where
  "world_shadow = \<lparr>objs = Map.empty(1 \<mapsto> shadow_P, 2 \<mapsto> shadow_O), allocs = [], trace = [], freed = {}\<rparr>"

text \<open>
  \<open>first_named d i N\<close>: slot \<open>i\<close> is the first slot of the table that bears the name
  \<open>N\<close>, the names before it being C strings. \<open>plain_value w v\<close>: copying the value
  \<open>v\<close> calls no code outside the file and touches no dead object (it is no pointer
  to a foreign object, and no pointer to an engine object that is not in the store).
\<close>

definition first_named :: "DispatchEx \<Rightarrow> nat \<Rightarrow> string \<Rightarrow> bool" where
  "first_named d i N =
     (i < length (props d) \<and> p_name (props d ! i) = Some N
      \<and> list_all (\<lambda>s. case p_name s of Some y \<Rightarrow> cstring y \<and> y \<noteq> N | None \<Rightarrow> True)
            (take i (props d)))"

definition plain_value :: "world \<Rightarrow> VARIANT \<Rightarrow> bool" where
  "plain_value w v =
     (case v of
        VT_DISPATCH (Engine a) \<Rightarrow> objs w a \<noteq> None
      | VT_DISPATCH (Foreign f) \<Rightarrow> False
      | _ \<Rightarrow> True)"

text \<open>
  The prototype of \<open>world_own\<close>, held by nothing but the reserved slot of its child.
\<close>

definition world_sole :: world where
  "world_sole =
     \<lparr>objs = Map.empty(1 \<mapsto> shadow_P\<lparr>ref := 1\<rparr>, 2 \<mapsto> own_O), allocs = [], trace = [],
      freed = {}\<rparr>"

text \<open>
  An object with a prototype whose class has the accessor \<open>length\<close>, not yet
  materialised as a slot.
\<close>

definition lazy_O :: DispatchEx where
  "lazy_O =
     \<lparr>ref = 1, buf_size = 4, props_alloc = 4,
      props = [\<lparr>p_name = None, p_type = PROP_DELETED, p_flags = 0, p_u = U_unset\<rparr>,
               \<lparr>p_name = Some ''prototype'', p_type = PROP_VARIANT, p_flags = 0,
                 p_u = U_var (VT_DISPATCH (Engine 1))\<rparr>],
      prototype = Some 1,
      builtin_info = \<lparr>value_prop = \<lparr>bp_name = None, bp_invoke = None, bp_flags = 0\<rparr>,
                       bi_props = [length_desc], destructor = None, on_put = None\<rparr>,
      ctx = Some 0\<rparr>"

definition world_lazy :: world where
  "world_lazy = \<lparr>objs = Map.empty(1 \<mapsto> proto_P, 2 \<mapsto> lazy_O), allocs = [], trace = [], freed = {}\<rparr>"



text \<open>
  Operations that release a value or call code outside the file can also end an
  object. \<open>store_evolves\<close> is \<open>store_step\<close> with that allowance: an object of the
  old store has been freed since, or it is still there and its table has moved by
  steps; objects may have been created. \<open>slots_kept\<close> is \<open>slots_stable\<close> with the same
  allowance. \<open>ext_ok\<close> says of the code outside the file that each of its calls
  keeps to \<open>store_evolves\<close>.
\<close>

definition store_evolves :: "world \<Rightarrow> world \<Rightarrow> bool" where
  "store_evolves w w' =
     (freed w \<subseteq> freed w'
      \<and> (\<forall>a d. objs w a = Some d \<longrightarrow>
            a \<in> freed w' \<or> (\<exists>d'. objs w' a = Some d' \<and> table_step d d')))"


definition ext_ok :: "ext \<Rightarrow> bool" where
  "ext_ok x =
     ((\<forall>f w a flags dp rv. store_evolves w (snd (snd (x_invoke x f w a flags dp rv))))
      \<and> (\<forall>h w a. store_evolves w (x_destructor x h w a))
      \<and> (\<forall>h w a name. store_evolves w (x_on_put x h w a name))
      \<and> (\<forall>f w. store_evolves w (x_AddRef x f w))
      \<and> (\<forall>f w. store_evolves w (x_Release x f w))
      \<and> (\<forall>f w did flags dp rv. store_evolves w (snd (snd (x_Invoke x f w did flags dp rv)))))"



definition reserved_ok :: "DispatchEx \<Rightarrow> bool" where
  "reserved_ok d =
     (1 < length (props d) \<and> p_flags (props d ! 1) = 0
      \<and> (p_type (props d ! 1) = PROP_DELETED \<or> p_type (props d ! 1) = PROP_VARIANT))"

definition world_blank :: world where
  "world_blank = \<lparr>objs = Map.empty(1 \<mapsto> proto_P, 3 \<mapsto> zero_DispatchEx), allocs = [], trace = [], freed = {}\<rparr>"

fun chain_ok :: "nat \<Rightarrow> world \<Rightarrow> addr \<Rightarrow> bool" where
  "chain_ok 0 w a = False"
| "chain_ok (Suc n) w a =
     (case objs w a of
        None \<Rightarrow> False
      | Some d \<Rightarrow> (case prototype d of None \<Rightarrow> True | Some pa \<Rightarrow> chain_ok n w pa))"

section \<open>Binary search in the descriptor array\<close>

lemma strcmpW_refl: "strcmpW a a = 0"
  by (induction a) simp_all

lemma strcmpW_antisym: "strcmpW b a = - strcmpW a b"
  by (induction a b rule: strcmpW.induct) auto

lemma of_char_pos: "c \<noteq> CHR 0x00 \<Longrightarrow> (of_char c :: nat) \<noteq> 0"
proof
  assume a: "c \<noteq> CHR 0x00" and b: "(of_char c :: nat) = 0"
  have "(of_char (CHR 0x00) :: nat) = 0" by simp
  with b have "(of_char c :: nat) = of_char (CHR 0x00)" by simp
  then have "c = CHR 0x00" by (rule of_char_eqI)
  with a show False by simp
qed

lemma strcmpW_eq0: "cstring a \<Longrightarrow> cstring b \<Longrightarrow> strcmpW a b = 0 \<Longrightarrow> a = b"
proof (induction a b rule: strcmpW.induct)
  case 1
  then show ?case by simp
next
  case (2 b bs)
  then show ?case using of_char_pos [of b] by (auto simp: cstring_def)
next
  case (3 a as)
  then show ?case using of_char_pos [of a] by (auto simp: cstring_def)
next
  case (4 a as b bs)
  then show ?case by (auto simp: cstring_def split: if_splits)
qed

lemma sint_max: "n \<le> 2 ^ 30 \<Longrightarrow> sint (word_of_nat n - 1 :: 32 word) = int n - 1"
proof (cases n)
  case 0
  then show ?thesis by simp
next
  case (Suc m)
  assume "n \<le> 2 ^ 30"
  with Suc have m: "m < 2 ^ 30" by simp
  have "sint (word_of_nat m :: 32 word) = int m"
    using m by (simp add: signed_of_nat signed_take_bit_int_eq_self)
  with Suc show ?thesis by simp
qed


lemma mid_bounds: "mn \<le> mx \<Longrightarrow> mn \<le> (mn + mx) sdiv 2 \<and> (mn + mx) sdiv 2 \<le> (mx::int)"
  by (auto simp: signed_divide_int_def sgn_if abs_if split: if_splits)

lemma named_nth: "named_cstrings ps \<Longrightarrow> k < length ps \<Longrightarrow> \<exists>x. bp_name (ps ! k) = Some x \<and> cstring x"
  by (auto simp: named_cstrings_def list_all_length split: option.splits)

lemma sorted_nth: "sorted_by_name ps \<Longrightarrow> i < j \<Longrightarrow> j < length ps \<Longrightarrow>
   bp_name (ps ! i) = Some x \<Longrightarrow> bp_name (ps ! j) = Some y \<Longrightarrow> strcmpW x y < 0"
  by (auto simp: sorted_by_name_def sorted_wrt_iff_nth_less name_less_def split: option.splits)

lemma bsearch_found:
  "sorted_by_name ps \<Longrightarrow> named_cstrings ps \<Longrightarrow> length ps \<le> 2 ^ 30 \<Longrightarrow> name = Some n \<Longrightarrow> cstring n
    \<Longrightarrow> 0 \<le> mn \<Longrightarrow> mn \<le> int k \<Longrightarrow> int k \<le> mx \<Longrightarrow> mx < int (length ps) \<Longrightarrow> bp_name (ps ! k) = Some n
    \<Longrightarrow> bsearch_loop ps name mn mx = Ret (Some k)"
proof (induction ps name mn mx rule: bsearch_loop.induct)
  case (1 ps name mn mx)
  note sorted = \<open>sorted_by_name ps\<close> and named = \<open>named_cstrings ps\<close>
  note kname = \<open>bp_name (ps ! k) = Some n\<close>
  have le: "mn \<le> mx" using "1.prems" by simp
  define i where "i = (mn + mx) sdiv 2"
  have ib: "mn \<le> i \<and> i \<le> mx" unfolding i_def using le by (rule mid_bounds)
  have irange: "\<not> (i < 0 \<or> int (length ps) \<le> i)" using ib "1.prems" by simp
  have nov: "\<not> (2147483647 < mn + mx \<or> mn + mx < - 2147483648)"
    using "1.prems" by simp
  have ilen: "nat i < length ps" using irange by linarith
  obtain m where m: "bp_name (ps ! nat i) = Some m" "cstring m"
    using named_nth [OF named ilen] by blast
  have klen: "k < length ps" using "1.prems" by simp
  have unfold: "bsearch_loop ps name mn mx =
      (if strcmpW n m = 0 then Ret (Some (nat i))
       else if strcmpW n m < 0 then bsearch_loop ps name mn (i - 1)
       else bsearch_loop ps name (i + 1) mx)"
    using le nov irange m \<open>name = Some n\<close>
    by (subst bsearch_loop.simps) (simp add: i_def [symmetric] Let_def)
  show ?case
  proof (cases "strcmpW n m = 0")
    case True
    then have nm: "n = m" using strcmpW_eq0 \<open>cstring n\<close> m by blast
    have "nat i = k"
    proof (rule ccontr)
      assume ne: "nat i \<noteq> k"
      show False
      proof (cases "nat i < k")
        case True
        from sorted_nth [OF sorted True klen m(1) kname] nm strcmpW_refl [of n]
        show False by simp
      next
        case False
        with ne have "k < nat i" by simp
        from sorted_nth [OF sorted this ilen kname m(1)] nm strcmpW_refl [of n]
        show False by simp
      qed
    qed
    then show ?thesis using unfold True by simp
  next
    case False
    note ne0 = False
    have nik: "nat i \<noteq> k" using ne0 m kname strcmpW_refl [of n] by auto
    show ?thesis
    proof (cases "strcmpW n m < 0")
      case True
      have "int k < i"
      proof (rule ccontr)
        assume "\<not> int k < i"
        then have "nat i \<le> k" by simp
        with nik have "nat i < k" by simp
        from sorted_nth [OF sorted this klen m(1) kname]
        have "strcmpW m n < 0" .
        then show False using True strcmpW_antisym [of n m] by simp
      qed
      then have kle: "int k \<le> i - 1" by simp
      have "bsearch_loop ps name mn (i - 1) = Ret (Some k)"
        by (rule "1.IH"(1) [of i "Some n" "Some m" n m "strcmpW n m"])
           (use le nov irange ib m ne0 True kle "1.prems" in \<open>simp_all add: i_def\<close>)
      then show ?thesis using unfold ne0 True by simp
    next
      case False
      have "i < int k"
      proof (rule ccontr)
        assume "\<not> i < int k"
        then have "k \<le> nat i" using irange by simp
        with nik have "k < nat i" by simp
        from sorted_nth [OF sorted this ilen kname m(1)]
        have "strcmpW n m < 0" .
        then show False using False by simp
      qed
      then have kge: "i + 1 \<le> int k" by simp
      have "bsearch_loop ps name (i + 1) mx = Ret (Some k)"
        by (rule "1.IH"(2) [of i "Some n" "Some m" n m "strcmpW n m"])
           (use le nov irange ib m ne0 False kge "1.prems" in \<open>simp_all add: i_def\<close>)
      then show ?thesis using unfold ne0 False by simp
    qed
  qed
qed


lemma bsearch_absent:
  "named_cstrings ps \<Longrightarrow> length ps \<le> 2 ^ 30 \<Longrightarrow> name = Some n \<Longrightarrow> cstring n
    \<Longrightarrow> 0 \<le> mn \<Longrightarrow> mx < int (length ps) \<Longrightarrow> \<forall>k<length ps. bp_name (ps ! k) \<noteq> Some n
    \<Longrightarrow> bsearch_loop ps name mn mx = Ret None"
proof (induction ps name mn mx rule: bsearch_loop.induct)
  case (1 ps name mn mx)
  show ?case
  proof (cases "mn \<le> mx")
    case False
    then show ?thesis by (subst bsearch_loop.simps) simp
  next
    case le: True
    define i where "i = (mn + mx) sdiv 2"
    have ib: "mn \<le> i \<and> i \<le> mx" unfolding i_def using le by (rule mid_bounds)
    have irange: "\<not> (i < 0 \<or> int (length ps) \<le> i)" using ib "1.prems" by simp
    have nov: "\<not> (2147483647 < mn + mx \<or> mn + mx < - 2147483648)"
      using "1.prems" le by simp
    have ilen: "nat i < length ps" using irange by linarith
    obtain m where m: "bp_name (ps ! nat i) = Some m" "cstring m"
      using named_nth [OF \<open>named_cstrings ps\<close> ilen] by blast
    have ne0: "strcmpW n m \<noteq> 0"
    proof
      assume "strcmpW n m = 0"
      then have "n = m" using strcmpW_eq0 \<open>cstring n\<close> m by blast
      with m "1.prems" ilen show False by auto
    qed
    have unfold: "bsearch_loop ps name mn mx =
        (if strcmpW n m < 0 then bsearch_loop ps name mn (i - 1)
         else bsearch_loop ps name (i + 1) mx)"
      using le nov irange m ne0 \<open>name = Some n\<close>
      by (subst bsearch_loop.simps) (simp add: i_def [symmetric] Let_def)
    show ?thesis
    proof (cases "strcmpW n m < 0")
      case True
      have "bsearch_loop ps name mn (i - 1) = Ret None"
        by (rule "1.IH"(1) [of i "Some n" "Some m" n m "strcmpW n m"])
           (use le nov irange ib m ne0 True "1.prems" in \<open>simp_all add: i_def\<close>)
      then show ?thesis using unfold True by simp
    next
      case False
      have "bsearch_loop ps name (i + 1) mx = Ret None"
        by (rule "1.IH"(2) [of i "Some n" "Some m" n m "strcmpW n m"])
           (use le nov irange ib m ne0 False "1.prems" in \<open>simp_all add: i_def\<close>)
      then show ?thesis using unfold False by simp
    qed
  qed
qed

text \<open>
  Claim C6. For a class descriptor array sorted ascending by name, the lookup by
  binary search returns the very descriptor whose name is the queried name, for every
  name in the array, and returns absent for every name not in the array. The array
  holds at most \<open>2 ^ 30\<close> descriptors, so that the C int \<open>min+max\<close> does not overflow.
\<close>

theorem find_builtin_prop_sorted:
  assumes "sorted_by_name (bi_props (builtin_info This))"
    and "named_cstrings (bi_props (builtin_info This))"
    and "length (bi_props (builtin_info This)) \<le> 2 ^ 30"
    and "cstring name"
  shows "(\<forall>k<length (bi_props (builtin_info This)).
            bp_name (bi_props (builtin_info This) ! k) = Some name \<longrightarrow>
            find_builtin_prop This (Some name) = Ret (Some (bi_props (builtin_info This) ! k)))
       \<and> ((\<forall>k<length (bi_props (builtin_info This)).
              bp_name (bi_props (builtin_info This) ! k) \<noteq> Some name) \<longrightarrow>
            find_builtin_prop This (Some name) = Ret None)"
proof (intro conjI allI impI)
  let ?ps = "bi_props (builtin_info This)"
  have mx: "sint (word_of_nat (length ?ps) - 1 :: 32 word) = int (length ?ps) - 1"
    using assms(3) by (rule sint_max)
  {
    fix k
    assume k: "k < length ?ps" and nm: "bp_name (?ps ! k) = Some name"
    have "bsearch_loop ?ps (Some name) 0 (int (length ?ps) - 1) = Ret (Some k)"
      by (rule bsearch_found [OF assms(1) assms(2) assms(3) refl assms(4) _ _ _ _ nm])
         (use k in simp_all)
    then show "find_builtin_prop This (Some name) = Ret (Some (?ps ! k))"
      by (simp add: find_builtin_prop_def Let_def mx)
  }
  {
    assume "\<forall>k<length ?ps. bp_name (?ps ! k) \<noteq> Some name"
    then have "bsearch_loop ?ps (Some name) 0 (int (length ?ps) - 1) = Ret None"
      by (intro bsearch_absent [OF assms(2) assms(3) refl assms(4)]) simp_all
    then show "find_builtin_prop This (Some name) = Ret None"
      by (simp add: find_builtin_prop_def Let_def mx)
  }
qed

theorem find_builtin_prop_sorted_witness:
  "sorted_by_name (bi_props (builtin_info obj_abc))
   \<and> named_cstrings (bi_props (builtin_info obj_abc))
   \<and> find_builtin_prop obj_abc (Some ''greet'')
       = Ret (Some \<lparr>bp_name = Some ''greet'', bp_invoke = None, bp_flags = PROPF_METHOD\<rparr>)
   \<and> find_builtin_prop obj_abc (Some ''zip'') = Ret None"
proof -
  have s: "sorted_by_name (bi_props (builtin_info obj_abc))"
    by (simp add: obj_abc_def class_abc_def sorted_by_name_def name_less_def)
  have n: "named_cstrings (bi_props (builtin_info obj_abc))"
    by (simp add: obj_abc_def class_abc_def named_cstrings_def cstring_def)
  have l: "length (bi_props (builtin_info obj_abc)) \<le> 2 ^ 30"
    by (simp add: obj_abc_def class_abc_def)
  have c1: "cstring ''greet''" and c2: "cstring ''zip''"
    by (simp_all add: cstring_def)
  have g: "find_builtin_prop obj_abc (Some ''greet'') = Ret (Some (bi_props (builtin_info obj_abc) ! 1))"
    using find_builtin_prop_sorted [OF s n l c1, THEN conjunct1, THEN spec, of 1]
    by (simp add: obj_abc_def class_abc_def)
  have z: "find_builtin_prop obj_abc (Some ''zip'') = Ret None"
    using find_builtin_prop_sorted [OF s n l c2, THEN conjunct2]
    by (simp add: obj_abc_def class_abc_def All_less_Suc)
  show ?thesis
    using s n g z by (simp add: obj_abc_def class_abc_def)
qed

section \<open>Every operation moves the store by steps\<close>

lemmas fixture_defs = class_greet_def proto_P_def child_O_def world_PO_def dispex_info_def
  world_x_def plain_x_def no_args_def

lemmas fixture3_defs = length_desc_def accessor_O_def world_accessor_def put_5_def shadow_O_def
  shadow_P_def own_O_def world_own_def world_shadow_def world_sole_def lazy_O_def world_lazy_def

lemmas engine_defs = VariantClear.simps find_prop_name_def find_builtin_prop_def alloc_prop_def alloc_protref_def
  heap_strdupW_def heap_alloc_def upd_slot_def set_obj_def emit_def slot_at_def get_prop_def
  FAILED_def S_OK_def S_FALSE_def E_OUTOFMEMORY_def E_FAIL_def DISP_E_PARAMNOTOPTIONAL_def
  DISP_E_MEMBERNOTFOUND_def PROPF_ENUM_def PROPF_METHOD_def Let_def

lemma objs_emit [simp]: "objs (emit e w) = objs w"
  by (simp add: emit_def)

lemma objs_set_obj [simp]: "objs (set_obj a d w) = (objs w)(a \<mapsto> d)"
  by (simp add: set_obj_def)

lemma objs_heap_alloc [simp]: "objs (snd (heap_alloc w)) = objs w"
  by (simp add: heap_alloc_def split: list.splits)

lemma heap_alloc_eq: "heap_alloc w = (ok, w1) \<Longrightarrow> objs w1 = objs w"
  using objs_heap_alloc [of w] by simp

lemma objs_upd_slot:
  "objs (upd_slot a i f w) =
     (case objs w a of None \<Rightarrow> objs w
      | Some d \<Rightarrow> (objs w)(a \<mapsto> d\<lparr>props := (props d)[i := f (props d ! i)]\<rparr>))"
  by (simp add: upd_slot_def split: option.splits)

lemma slot_at_upd_slot:
  "slot_at (upd_slot a i f w) b j =
     (if a = b \<and> i = j then map_option f (slot_at w a i) else slot_at w b j)"
  by (auto simp: slot_at_def upd_slot_def split: option.splits)

lemma slot_at_emit [simp]: "slot_at (emit e w) = slot_at w"
  by (simp add: slot_at_def fun_eq_iff)

lemma slot_at_objs: "objs w1 = objs w \<Longrightarrow> slot_at w1 a j = slot_at w a j"
  by (simp add: slot_at_def)

lemma slot_step_refl [simp]: "slot_step s s"
  by (simp add: slot_step_def)

lemma slot_step_trans: "slot_step s t \<Longrightarrow> slot_step t u \<Longrightarrow> slot_step s u"
  by (auto simp: slot_step_def)

lemma table_step_refl [simp]: "table_step d d"
  by (simp add: table_step_def)

lemma table_step_trans: "table_step d e \<Longrightarrow> table_step e f \<Longrightarrow> table_step d f"
  unfolding table_step_def
  by (auto intro: slot_step_trans)

lemma store_step_refl [simp]: "store_step w w"
  by (simp add: store_step_def option.rel_refl)

lemma store_step_trans: "store_step w w1 \<Longrightarrow> store_step w1 w2 \<Longrightarrow> store_step w w2"
  unfolding store_step_def
proof
  fix a
  assume 1: "\<forall>a. rel_option table_step (objs w a) (objs w1 a)"
    and 2: "\<forall>a. rel_option table_step (objs w1 a) (objs w2 a)"
  from 1 2 have "rel_option table_step (objs w a) (objs w1 a)" "rel_option table_step (objs w1 a) (objs w2 a)"
    by blast+
  then show "rel_option table_step (objs w a) (objs w2 a)"
    by (cases "objs w a"; cases "objs w1 a"; cases "objs w2 a") (auto intro: table_step_trans)
qed

lemma store_step_same: "objs w' = objs w \<Longrightarrow> store_step w w'"
  by (simp add: store_step_def option.rel_refl)

lemma store_step_set_obj:
  "objs w a = Some d \<Longrightarrow> table_step d d' \<Longrightarrow> store_step w (set_obj a d' w)"
  by (simp add: store_step_def option.rel_refl)

lemma store_step_upd_slot:
  assumes "\<And>d. objs w a = Some d \<Longrightarrow> i < length (props d) \<Longrightarrow> slot_step (props d ! i) (f (props d ! i))"
  shows "store_step w (upd_slot a i f w)"
proof (cases "objs w a")
  case None
  then show ?thesis by (simp add: upd_slot_def)
next
  case (Some d)
  have "table_step d (d\<lparr>props := (props d)[i := f (props d ! i)]\<rparr>)"
  proof (cases "i < length (props d)")
    case True
    then show ?thesis
      using assms [OF Some True] by (auto simp: table_step_def nth_list_update)
  next
    case False
    then show ?thesis by (simp add: table_step_def)
  qed
  then show ?thesis
    using Some by (simp add: upd_slot_def store_step_set_obj)
qed

lemma obind_Ret: "obind m f = Ret y \<longleftrightarrow> (\<exists>x. m = Ret x \<and> f x = Ret y)"
  by (cases m) auto

lemma table_grows_refl [simp]: "table_grows K d d"
  by (simp add: table_grows_def)

lemma table_grows_trans: "table_grows K d e \<Longrightarrow> table_grows K e f \<Longrightarrow> table_grows K d f"
  by (auto simp: table_grows_def)

lemma table_grows_mono: "table_grows K d e \<Longrightarrow> (\<And>t. K t \<Longrightarrow> K' t) \<Longrightarrow> table_grows K' d e"
  by (auto simp: table_grows_def list_all_iff)

lemma table_grows_step: "table_grows K d e \<Longrightarrow> table_step d e"
  by (auto simp: table_grows_def table_step_def nth_append)

lemma grows_with_refl [simp]: "grows_with K w w"
  by (simp add: grows_with_def option.rel_refl)

lemma grows_with_same: "objs w' = objs w \<Longrightarrow> grows_with K w w'"
  by (simp add: grows_with_def option.rel_refl)

lemma grows_with_trans: "grows_with K w w1 \<Longrightarrow> grows_with K w1 w2 \<Longrightarrow> grows_with K w w2"
  unfolding grows_with_def
proof
  fix a
  assume 1: "\<forall>a. rel_option (table_grows (K a)) (objs w a) (objs w1 a)"
    and 2: "\<forall>a. rel_option (table_grows (K a)) (objs w1 a) (objs w2 a)"
  from 1 2 have "rel_option (table_grows (K a)) (objs w a) (objs w1 a)"
    "rel_option (table_grows (K a)) (objs w1 a) (objs w2 a)"
    by blast+
  then show "rel_option (table_grows (K a)) (objs w a) (objs w2 a)"
    by (cases "objs w a"; cases "objs w1 a"; cases "objs w2 a") (auto intro: table_grows_trans)
qed

lemma grows_with_mono:
  assumes "grows_with K w w'" and "\<And>a t. K a t \<Longrightarrow> K' a t"
  shows "grows_with K' w w'"
  unfolding grows_with_def
proof
  fix a
  from assms(1) have "rel_option (table_grows (K a)) (objs w a) (objs w' a)"
    by (simp add: grows_with_def)
  then show "rel_option (table_grows (K' a)) (objs w a) (objs w' a)"
    by (cases "objs w a"; cases "objs w' a") (auto intro: table_grows_mono assms(2))
qed

lemma grows_with_step: "grows_with K w w' \<Longrightarrow> store_step w w'"
  unfolding grows_with_def store_step_def
proof
  fix a
  assume "\<forall>a. rel_option (table_grows (K a)) (objs w a) (objs w' a)"
  then have "rel_option (table_grows (K a)) (objs w a) (objs w' a)" by blast
  then show "rel_option table_step (objs w a) (objs w' a)"
    by (cases "objs w a"; cases "objs w' a") (auto intro: table_grows_step)
qed

lemma grows_with_set_obj:
  "objs w a = Some d \<Longrightarrow> table_grows (K a) d d' \<Longrightarrow> grows_with K w (set_obj a d' w)"
  by (simp add: grows_with_def option.rel_refl)

lemma grows_with_upd_new:
  assumes g: "grows_with K w w1"
    and ty: "\<And>s. p_type (f s) = p_type s"
    and new: "\<And>d. objs w a = Some d \<Longrightarrow> length (props d) \<le> i"
  shows "grows_with K w (upd_slot a i f w1)"
proof (cases "objs w1 a")
  case None
  then show ?thesis using g by (simp add: upd_slot_def)
next
  case (Some d1)
  from g have r: "rel_option (table_grows (K a)) (objs w a) (objs w1 a)"
    by (simp add: grows_with_def)
  then obtain d where d: "objs w a = Some d" and tg: "table_grows (K a) d d1"
    using Some by (cases "objs w a") auto
  from tg obtain new where nw: "props d1 = props d @ new" "list_all (\<lambda>s. K a (p_type s)) new"
    by (auto simp: table_grows_def)
  have le: "length (props d) \<le> i" using new [OF d] .
  have "(props d1)[i := f (props d1 ! i)] = props d @ new[i - length (props d) := f (props d1 ! i)]"
    using le nw by (simp add: list_update_append)
  moreover have "list_all (\<lambda>s. K a (p_type s)) (new[i - length (props d) := f (props d1 ! i)])"
  proof (cases "i - length (props d) < length new")
    case True
    have "props d1 ! i = new ! (i - length (props d))"
      using le nw by (simp add: nth_append)
    then have "K a (p_type (f (props d1 ! i)))"
      using nw(2) True by (simp add: ty list_all_length)
    then show ?thesis
      using nw(2) True by (auto simp: list_all_length nth_list_update)
  next
    case False
    then show ?thesis using nw(2) by (simp add: list_update_beyond not_less)
  qed
  ultimately have "table_grows (K a) d (d1\<lparr>props := (props d1)[i := f (props d1 ! i)]\<rparr>)"
    using tg by (auto simp: table_grows_def)
  then have "rel_option (table_grows (K a)) (objs w a)
      (objs (upd_slot a i f w1) a)"
    using d Some by (simp add: upd_slot_def)
  moreover have "\<And>b. b \<noteq> a \<Longrightarrow> objs (upd_slot a i f w1) b = objs w1 b"
    using Some by (simp add: upd_slot_def)
  ultimately show ?thesis
    using g unfolding grows_with_def by metis
qed

lemma grows_with_one:
  assumes "objs w a = Some d" and "objs w' = (objs w)(a \<mapsto> d')" and "table_grows (K a) d d'"
  shows "grows_with K w w'"
  using assms by (simp add: grows_with_def option.rel_refl)

lemma heap_strdupW_objs: "heap_strdupW w name = (nm, w1) \<Longrightarrow> objs w1 = objs w \<and> (nm = None \<or> nm = name)"
  by (auto simp: heap_strdupW_def dest: heap_alloc_eq split: option.splits prod.splits if_splits)

lemma alloc_prop_cases:
  assumes "alloc_prop w This name ty fl = Ret (r, w')"
  shows "\<exists>d d'. objs w This = Some d \<and> objs w' = (objs w)(This \<mapsto> d')
      \<and> prototype d' = prototype d \<and> builtin_info d' = builtin_info d
      \<and> (props d' = props d \<and> r = None
          \<or> (\<exists>nm. props d' = props d @ [\<lparr>p_name = nm, p_type = ty, p_flags = fl, p_u = U_unset\<rparr>]
               \<and> (nm = None \<or> nm = name)
               \<and> r = (if nm = None then None else Some (length (props d)))))"
proof -
  obtain d where d: "objs w This = Some d"
    using assms by (auto simp: alloc_prop_def split: option.splits)
  obtain nm0 w0 where sd0: "heap_strdupW w name = (nm0, w0)"
    by (cases "heap_strdupW w name") auto
  show ?thesis
  proof (cases "buf_size d = length (props d)")
    case grow: True
    define d1 where "d1 = d\<lparr>buf_size := (2 * length (props d)) mod 2 ^ 32\<rparr>"
    obtain ok w1 where h: "heap_alloc (set_obj This d1 w) = (ok, w1)"
      by (cases "heap_alloc (set_obj This d1 w)") auto
    from heap_alloc_eq [OF h] have o1: "objs w1 = (objs w)(This \<mapsto> d1)" by simp
    show ?thesis
    proof (cases ok)
      case False
      then have "r = None \<and> w' = w1"
        using assms d grow h by (simp add: alloc_prop_def Let_def d1_def)
      moreover have "prototype d1 = prototype d" "builtin_info d1 = builtin_info d" "props d1 = props d"
        by (simp_all add: d1_def)
      ultimately show ?thesis using d o1 by blast
    next
      case True
      obtain nm w2 where sd: "heap_strdupW w1 name = (nm, w2)"
        by (cases "heap_strdupW w1 name") auto
      from heap_strdupW_objs [OF sd] have o2: "objs w2 = objs w1" and nm: "nm = None \<or> nm = name"
        by simp_all
      define d3 where "d3 = d1\<lparr>props_alloc := buf_size d1,
          props := props d @ [\<lparr>p_name = nm, p_type = ty, p_flags = fl, p_u = U_unset\<rparr>]\<rparr>"
      have "r = (if nm = None then None else Some (length (props d))) \<and> w' = set_obj This d3 w2"
        using assms d grow h True sd
        by (auto simp: alloc_prop_def Let_def d1_def d3_def split: if_splits)
      then have r: "r = (if nm = None then None else Some (length (props d)))"
        and o: "objs w' = (objs w)(This \<mapsto> d3)"
        using o1 o2 by simp_all
      have p3: "prototype d3 = prototype d" "builtin_info d3 = builtin_info d"
        "props d3 = props d @ [\<lparr>p_name = nm, p_type = ty, p_flags = fl, p_u = U_unset\<rparr>]"
        by (simp_all add: d3_def d1_def)
      have "\<exists>nm'. props d3 = props d @ [\<lparr>p_name = nm', p_type = ty, p_flags = fl, p_u = U_unset\<rparr>]
               \<and> (nm' = None \<or> nm' = name)
               \<and> r = (if nm' = None then None else Some (length (props d)))"
        using p3(3) nm r by blast
      then show ?thesis
        using d o p3(1,2) by blast
    qed
  next
    case nogrow: False
    obtain nm w2 where sd: "heap_strdupW w name = (nm, w2)"
      by (cases "heap_strdupW w name") auto
    from heap_strdupW_objs [OF sd] have o2: "objs w2 = objs w" and nm: "nm = None \<or> nm = name"
      by simp_all
    define d3 where "d3 = d\<lparr>props := props d @ [\<lparr>p_name = nm, p_type = ty, p_flags = fl, p_u = U_unset\<rparr>]\<rparr>"
    have "r = (if nm = None then None else Some (length (props d))) \<and> w' = set_obj This d3 w2"
      using assms d nogrow sd
      by (auto simp: alloc_prop_def Let_def d3_def split: if_splits)
    then have r: "r = (if nm = None then None else Some (length (props d)))"
      and o: "objs w' = (objs w)(This \<mapsto> d3)"
      using o2 by simp_all
    have p3: "prototype d3 = prototype d" "builtin_info d3 = builtin_info d"
      "props d3 = props d @ [\<lparr>p_name = nm, p_type = ty, p_flags = fl, p_u = U_unset\<rparr>]"
      by (simp_all add: d3_def)
    have "\<exists>nm'. props d3 = props d @ [\<lparr>p_name = nm', p_type = ty, p_flags = fl, p_u = U_unset\<rparr>]
             \<and> (nm' = None \<or> nm' = name)
             \<and> r = (if nm' = None then None else Some (length (props d)))"
      using p3(3) nm r by blast
    then show ?thesis
      using d o p3(1,2) by blast
  qed
qed

lemma alloc_prop_Ret:
  assumes "alloc_prop w This name ty fl = Ret (r, w')"
  shows "\<exists>d. objs w This = Some d
      \<and> grows_with (\<lambda>a t. a = This \<and> t = ty) w w'
      \<and> (r = None \<or> r = Some (length (props d)))"
proof -
  from alloc_prop_cases [OF assms] obtain d d' where
    d: "objs w This = Some d" and o: "objs w' = (objs w)(This \<mapsto> d')"
    and p: "prototype d' = prototype d" "builtin_info d' = builtin_info d"
    and c: "props d' = props d \<and> r = None
          \<or> (\<exists>nm. props d' = props d @ [\<lparr>p_name = nm, p_type = ty, p_flags = fl, p_u = U_unset\<rparr>]
               \<and> (nm = None \<or> nm = name)
               \<and> r = (if nm = None then None else Some (length (props d))))"
    by blast
  have "table_grows (\<lambda>t. This = This \<and> t = ty) d d'"
    using p c by (auto simp: table_grows_def)
  from grows_with_one [of w This d w' d' "\<lambda>a t. a = This \<and> t = ty", OF d o this]
  show ?thesis using d c by (auto split: if_splits)
qed

lemma alloc_protref_Ret:
  assumes "alloc_protref w This name r = Ret (ret, w')"
  shows "\<exists>d. objs w This = Some d
      \<and> grows_with (\<lambda>a t. a = This \<and> t = PROP_PROTREF) w w'
      \<and> (ret = None \<or> ret = Some (length (props d)))"
proof -
  from assms obtain ret1 w1 where a: "alloc_prop w This name PROP_PROTREF 0 = Ret (ret1, w1)"
    and k: "(case ret1 of None \<Rightarrow> Ret (None, w1)
             | Some i \<Rightarrow> Ret (Some i, upd_slot This i (\<lambda>s. s\<lparr>p_u := U_ref r\<rparr>) w1)) = Ret (ret, w')"
    by (auto simp: alloc_protref_def obind_Ret)
  from alloc_prop_Ret [OF a] obtain d where d: "objs w This = Some d"
    and g: "grows_with (\<lambda>a t. a = This \<and> t = PROP_PROTREF) w w1"
    and r1: "ret1 = None \<or> ret1 = Some (length (props d))"
    by blast
  show ?thesis
  proof (cases ret1)
    case None
    with k g d show ?thesis by auto
  next
    case (Some i)
    with r1 have i: "i = length (props d)" by simp
    from k Some have w': "w' = upd_slot This i (\<lambda>s. s\<lparr>p_u := U_ref r\<rparr>) w1" and "ret = Some i"
      by simp_all
    have "grows_with (\<lambda>a t. a = This \<and> t = PROP_PROTREF) w w'"
      unfolding w' by (rule grows_with_upd_new [OF g]) (use d i in simp_all)
    then show ?thesis using d i \<open>ret = Some i\<close> by auto
  qed
qed

lemma find_prop_name_Ret:
  assumes "find_prop_name w This name = Ret (hres, prop, w')"
  shows "grows_with (\<lambda>a t. a = This \<and> t = PROP_BUILTIN) w w'"
proof -
  obtain d where d: "objs w This = Some d"
    using assms by (auto simp: find_prop_name_def split: option.splits)
  from assms d obtain found where sc: "scan_names (props d) name 0 = Ret found"
    and k1: "(case found of
                Some i \<Rightarrow> Ret (S_OK, Some i, w)
              | None \<Rightarrow>
                  obind (find_builtin_prop d name) (\<lambda>builtin.
                    case builtin of
                      Some b \<Rightarrow>
                        obind (alloc_prop w This name PROP_BUILTIN (bp_flags b)) (\<lambda>(prop, w1).
                          case prop of
                            None \<Rightarrow> Ret (E_OUTOFMEMORY, None, w1)
                          | Some i \<Rightarrow>
                              Ret (S_OK, Some i, upd_slot This i (\<lambda>s. s\<lparr>p_u := U_p b\<rparr>) w1))
                    | None \<Rightarrow> Ret (S_OK, None, w))) = Ret (hres, prop, w')"
    by (auto simp: find_prop_name_def obind_Ret)
  show ?thesis
  proof (cases found)
    case (Some i)
    with k1 show ?thesis by simp
  next
    case None
    with k1 obtain builtin where fb: "find_builtin_prop d name = Ret builtin"
      and k2: "(case builtin of
                  Some b \<Rightarrow>
                    obind (alloc_prop w This name PROP_BUILTIN (bp_flags b)) (\<lambda>(prop, w1).
                      case prop of
                        None \<Rightarrow> Ret (E_OUTOFMEMORY, None, w1)
                      | Some i \<Rightarrow>
                          Ret (S_OK, Some i, upd_slot This i (\<lambda>s. s\<lparr>p_u := U_p b\<rparr>) w1))
                | None \<Rightarrow> Ret (S_OK, None, w)) = Ret (hres, prop, w')"
      by (auto simp: obind_Ret)
    show ?thesis
    proof (cases builtin)
      case None
      with k2 show ?thesis by simp
    next
      case (Some b)
      with k2 obtain ret1 w1 where a: "alloc_prop w This name PROP_BUILTIN (bp_flags b) = Ret (ret1, w1)"
        and k3: "(case ret1 of
                    None \<Rightarrow> Ret (E_OUTOFMEMORY, None, w1)
                  | Some i \<Rightarrow>
                      Ret (S_OK, Some i, upd_slot This i (\<lambda>s. s\<lparr>p_u := U_p b\<rparr>) w1)) = Ret (hres, prop, w')"
        by (auto simp: obind_Ret)
      from alloc_prop_Ret [OF a] d have g: "grows_with (\<lambda>a t. a = This \<and> t = PROP_BUILTIN) w w1"
        and r1: "ret1 = None \<or> ret1 = Some (length (props d))"
        by auto
      show ?thesis
      proof (cases ret1)
        case None
        with k3 g show ?thesis by simp
      next
        case (Some i)
        with r1 have i: "i = length (props d)" by simp
        from k3 Some have w': "w' = upd_slot This i (\<lambda>s. s\<lparr>p_u := U_p b\<rparr>) w1" by simp
        show ?thesis
          unfolding w' by (rule grows_with_upd_new [OF g]) (use d i in simp_all)
      qed
    qed
  qed
qed

lemma find_prop_name_prot_grows:
  "find_prop_name_prot n w This name alloc = Ret (hres, prop, w')
    \<Longrightarrow> grows_with (lookup_kinds This alloc) w w'"
proof (induction n arbitrary: w This alloc hres "prop" w')
  case 0
  then show ?case by simp
next
  case (Suc n)
  from Suc.prems obtain h1 p1 w1 where f: "find_prop_name w This name = Ret (h1, p1, w1)"
    and k1: "(if FAILED h1 then Ret (h1, None, w1)
       else
         case p1 of
           Some i \<Rightarrow> Ret (S_OK, Some i, w1)
         | None \<Rightarrow>
             (case objs w1 This of
                None \<Rightarrow> Fault
              | Some d \<Rightarrow>
                  obind
                    (case prototype d of
                       None \<Rightarrow> Ret (S_OK, None, w1)
                     | Some pa \<Rightarrow> find_prop_name_prot n w1 pa name False)
                    (\<lambda>(hres, pprop, w2).
                      if FAILED hres then Ret (hres, None, w2)
                      else
                        case (prototype d, pprop) of
                          (Some pa, Some j) \<Rightarrow>
                            (case objs w2 pa of
                               None \<Rightarrow> Fault
                             | Some pd \<Rightarrow>
                                 if length (props pd) \<le> j then Fault
                                 else
                                   obind (alloc_protref w2 This (p_name (props pd ! j)) (word_of_nat j))
                                     (\<lambda>(ret, w3).
                                       case ret of
                                         None \<Rightarrow> Ret (E_OUTOFMEMORY, None, w3)
                                       | Some i \<Rightarrow> Ret (S_OK, Some i, w3)))
                        | _ \<Rightarrow>
                            if alloc then
                              obind (alloc_prop w2 This name PROP_VARIANT PROPF_ENUM) (\<lambda>(ret, w3).
                                case ret of
                                  None \<Rightarrow> Ret (E_OUTOFMEMORY, None, w3)
                                | Some i \<Rightarrow>
                                    Ret (S_OK, Some i,
                                      upd_slot This i (\<lambda>s. s\<lparr>p_u := U_var VT_EMPTY\<rparr>) w3))
                            else Ret (S_OK, None, w2)))) = Ret (hres, prop, w')"
    by (auto simp: obind_Ret)
  have g1: "grows_with (lookup_kinds This alloc) w w1"
    by (rule grows_with_mono [OF find_prop_name_Ret [OF f]]) (simp add: lookup_kinds_def)
  show ?case
  proof (cases "FAILED h1 \<or> p1 \<noteq> None")
    case True
    with k1 have "w' = w1" by (auto split: if_splits)
    with g1 show ?thesis by simp
  next
    case False
    then have nf: "\<not> FAILED h1" and p1: "p1 = None" by simp_all
    from k1 nf p1 obtain d where d: "objs w1 This = Some d"
      by (auto split: option.splits)
    from k1 nf p1 d obtain h2 pp w2 where
      rec: "(case prototype d of
               None \<Rightarrow> Ret (S_OK, None, w1)
             | Some pa \<Rightarrow> find_prop_name_prot n w1 pa name False) = Ret (h2, pp, w2)"
      and k2: "(if FAILED h2 then Ret (h2, None, w2)
                else
                  case (prototype d, pp) of
                    (Some pa, Some j) \<Rightarrow>
                      (case objs w2 pa of
                         None \<Rightarrow> Fault
                       | Some pd \<Rightarrow>
                           if length (props pd) \<le> j then Fault
                           else
                             obind (alloc_protref w2 This (p_name (props pd ! j)) (word_of_nat j))
                               (\<lambda>(ret, w3).
                                 case ret of
                                   None \<Rightarrow> Ret (E_OUTOFMEMORY, None, w3)
                                 | Some i \<Rightarrow> Ret (S_OK, Some i, w3)))
                  | _ \<Rightarrow>
                      if alloc then
                        obind (alloc_prop w2 This name PROP_VARIANT PROPF_ENUM) (\<lambda>(ret, w3).
                          case ret of
                            None \<Rightarrow> Ret (E_OUTOFMEMORY, None, w3)
                          | Some i \<Rightarrow>
                              Ret (S_OK, Some i,
                                upd_slot This i (\<lambda>s. s\<lparr>p_u := U_var VT_EMPTY\<rparr>) w3))
                      else Ret (S_OK, None, w2)) = Ret (hres, prop, w')"
      by (auto simp: obind_Ret)
    have g2: "grows_with (lookup_kinds This alloc) w1 w2"
    proof (cases "prototype d")
      case None
      with rec show ?thesis by simp
    next
      case (Some pa)
      with rec have "find_prop_name_prot n w1 pa name False = Ret (h2, pp, w2)" by simp
      from Suc.IH [OF this] show ?thesis
        by (rule grows_with_mono) (auto simp: lookup_kinds_def)
    qed
    have g12: "grows_with (lookup_kinds This alloc) w w2"
      by (rule grows_with_trans [OF g1 g2])
    show ?thesis
    proof (cases "FAILED h2")
      case True
      with k2 have "w' = w2" by simp
      with g12 show ?thesis by simp
    next
      case nf2: False
      show ?thesis
      proof (cases "\<exists>pa j. prototype d = Some pa \<and> pp = Some j")
        case True
        then obtain pa j where pj: "prototype d = Some pa" "pp = Some j" by blast
        with k2 nf2 obtain pd where "objs w2 pa = Some pd" by (auto split: option.splits)
        with k2 nf2 pj obtain ret w3 where
          ap: "alloc_protref w2 This (p_name (props pd ! j)) (word_of_nat j) = Ret (ret, w3)"
          and k3: "(case ret of
                      None \<Rightarrow> Ret (E_OUTOFMEMORY, None, w3)
                    | Some i \<Rightarrow> Ret (S_OK, Some i, w3)) = Ret (hres, prop, w')"
          by (auto simp: obind_Ret split: if_splits)
        from k3 have "w' = w3" by (auto split: option.splits)
        moreover from alloc_protref_Ret [OF ap]
        have "grows_with (lookup_kinds This alloc) w2 w3"
          by (auto intro: grows_with_mono simp: lookup_kinds_def)
        ultimately show ?thesis using g12 by (auto intro: grows_with_trans)
      next
        case False
        then have k4: "(if alloc then
                        obind (alloc_prop w2 This name PROP_VARIANT PROPF_ENUM) (\<lambda>(ret, w3).
                          case ret of
                            None \<Rightarrow> Ret (E_OUTOFMEMORY, None, w3)
                          | Some i \<Rightarrow>
                              Ret (S_OK, Some i,
                                upd_slot This i (\<lambda>s. s\<lparr>p_u := U_var VT_EMPTY\<rparr>) w3))
                      else Ret (S_OK, None, w2)) = Ret (hres, prop, w')"
          using k2 nf2 by (auto split: option.splits)
        show ?thesis
        proof (cases alloc)
          case False
          with k4 have "w' = w2" by simp
          with g12 show ?thesis by simp
        next
          case True
          with k4 obtain ret w3 where
            ap: "alloc_prop w2 This name PROP_VARIANT PROPF_ENUM = Ret (ret, w3)"
            and k5: "(case ret of
                        None \<Rightarrow> Ret (E_OUTOFMEMORY, None, w3)
                      | Some i \<Rightarrow>
                          Ret (S_OK, Some i,
                            upd_slot This i (\<lambda>s. s\<lparr>p_u := U_var VT_EMPTY\<rparr>) w3)) = Ret (hres, prop, w')"
            by (auto simp: obind_Ret)
          from alloc_prop_Ret [OF ap] obtain d2 where d2: "objs w2 This = Some d2"
            and g3: "grows_with (\<lambda>a t. a = This \<and> t = PROP_VARIANT) w2 w3"
            and r: "ret = None \<or> ret = Some (length (props d2))"
            by blast
          have g3': "grows_with (lookup_kinds This alloc) w2 w3"
            by (rule grows_with_mono [OF g3]) (simp add: lookup_kinds_def True)
          have "grows_with (lookup_kinds This alloc) w2 w'"
          proof (cases ret)
            case None
            with k5 g3' show ?thesis by simp
          next
            case (Some i)
            with r have i: "i = length (props d2)" by simp
            from k5 Some have w': "w' = upd_slot This i (\<lambda>s. s\<lparr>p_u := U_var VT_EMPTY\<rparr>) w3"
              by simp
            show ?thesis
              unfolding w' by (rule grows_with_upd_new [OF g3']) (use d2 i in simp_all)
          qed
          with g12 show ?thesis by (rule grows_with_trans)
        qed
      qed
    qed
  qed
qed

lemma store_step_upd_u:
  assumes "\<And>s. p_name (f s) = p_name s \<and> p_type (f s) = p_type s \<and> p_flags (f s) = p_flags s"
  shows "store_step w (upd_slot a i f w)"
  by (rule store_step_upd_slot) (simp add: slot_step_def assms)

lemma get_flags_step:
  "get_flags n w This i = Ret (fl, w') \<Longrightarrow> store_step w w'"
proof (induction n arbitrary: This i)
  case 0
  then show ?case by simp
next
  case (Suc n)
  from Suc.prems obtain d where d: "objs w This = Some d" and i: "i < length (props d)"
    by (auto split: option.splits if_splits)
  show ?case
  proof (cases "p_type (props d ! i) = PROP_PROTREF")
    case False
    with Suc.prems d i have "w' = w" by simp
    then show ?thesis by simp
  next
    case True
    with Suc.prems d i obtain r pa pd where r: "p_u (props d ! i) = U_ref r"
      and pa: "prototype d = Some pa" and pd: "objs w pa = Some pd"
      by (auto split: prop_u.splits option.splits)
    show ?thesis
    proof (cases "get_prop pd r")
      case None
      with Suc.prems d i True r pa pd
      have "w' = upd_slot This i (\<lambda>s. s\<lparr>p_type := PROP_DELETED\<rparr>) w" by simp
      moreover have "store_step w (upd_slot This i (\<lambda>s. s\<lparr>p_type := PROP_DELETED\<rparr>) w)"
        by (rule store_step_upd_slot) (use d True in \<open>auto simp: slot_step_def\<close>)
      ultimately show ?thesis by simp
    next
      case (Some j)
      with Suc.prems d i True r pa pd have "get_flags n w pa j = Ret (fl, w')" by simp
      then show ?thesis by (rule Suc.IH)
    qed
  qed
qed

lemma fill_loop_grows:
  "fill_loop w This its j = Ret (hres, w') \<Longrightarrow> grows_with cache_kinds w w'"
proof (induction its arbitrary: w j)
  case Nil
  then show ?case by simp
next
  case (Cons iter rest)
  from Cons.prems obtain h1 p1 w1 where f: "find_prop_name w This (p_name iter) = Ret (h1, p1, w1)"
    and k1: "(if FAILED h1 then Ret (h1, w1)
       else
         case p1 of
           Some _ \<Rightarrow> fill_loop w1 This rest (Suc j)
         | None \<Rightarrow>
             obind (alloc_protref w1 This (p_name iter) (word_of_nat j)) (\<lambda>(ret, w2).
               case ret of
                 None \<Rightarrow> Ret (E_OUTOFMEMORY, w2)
               | Some _ \<Rightarrow> fill_loop w2 This rest (Suc j))) = Ret (hres, w')"
    by (auto simp: obind_Ret)
  have g1: "grows_with cache_kinds w w1"
    by (rule grows_with_mono [OF find_prop_name_Ret [OF f]]) (simp add: cache_kinds_def)
  show ?case
  proof (cases "FAILED h1")
    case True
    with k1 g1 show ?thesis by simp
  next
    case nf: False
    show ?thesis
    proof (cases p1)
      case (Some a)
      with k1 nf have "fill_loop w1 This rest (Suc j) = Ret (hres, w')" by simp
      from Cons.IH [OF this] g1 show ?thesis by (auto intro: grows_with_trans)
    next
      case None
      with k1 nf obtain ret w2 where
        ap: "alloc_protref w1 This (p_name iter) (word_of_nat j) = Ret (ret, w2)"
        and k2: "(case ret of
                 None \<Rightarrow> Ret (E_OUTOFMEMORY, w2)
               | Some _ \<Rightarrow> fill_loop w2 This rest (Suc j)) = Ret (hres, w')"
        by (auto simp: obind_Ret)
      from alloc_protref_Ret [OF ap] have g2: "grows_with cache_kinds w1 w2"
        by (auto intro: grows_with_mono simp: cache_kinds_def)
      have "grows_with cache_kinds w2 w'"
      proof (cases ret)
        case None
        with k2 show ?thesis by simp
      next
        case (Some a)
        with k2 show ?thesis by (auto dest: Cons.IH)
      qed
      with g1 g2 show ?thesis by (auto intro: grows_with_trans)
    qed
  qed
qed

lemma fill_protrefs_grows:
  "fill_protrefs n w This = Ret (hres, w') \<Longrightarrow> grows_with cache_kinds w w'"
proof (induction n arbitrary: w This hres w')
  case 0
  then show ?case by simp
next
  case (Suc n)
  from Suc.prems obtain d where d: "objs w This = Some d"
    by (auto split: option.splits)
  show ?case
  proof (cases "prototype d")
    case None
    with Suc.prems d show ?thesis by simp
  next
    case (Some pa)
    with Suc.prems d obtain ig w1 pd where r: "fill_protrefs n w pa = Ret (ig, w1)"
      and pd: "objs w1 pa = Some pd" and l: "fill_loop w1 This (props pd) 0 = Ret (hres, w')"
      by (auto simp: obind_Ret split: option.splits)
    from Suc.IH [OF r] fill_loop_grows [OF l] show ?thesis
      by (rule grows_with_trans)
  qed
qed

lemma enum_loop_step:
  "enum_loop n w This i k = Ret (hres, pid, w') \<Longrightarrow> store_step w w'"
proof (induction k arbitrary: w i)
  case 0
  then show ?case by simp
next
  case (Suc k)
  from Suc.prems obtain d where d: "objs w This = Some d" and i: "i < length (props d)"
    by (auto split: option.splits if_splits)
  show ?case
  proof (cases "p_name (props d ! i) = None")
    case True
    with Suc.prems d i have "enum_loop n w This (Suc i) k = Ret (hres, pid, w')" by simp
    then show ?thesis by (rule Suc.IH)
  next
    case False
    with Suc.prems d i obtain fl w1 where g: "get_flags n w This i = Ret (fl, w1)"
      and k1: "(if fl AND PROPF_ENUM \<noteq> 0 then Ret (S_OK, Some (prop_to_id i), w1)
              else enum_loop n w1 This (Suc i) k) = Ret (hres, pid, w')"
      by (auto simp: obind_Ret)
    have s1: "store_step w w1" using g by (rule get_flags_step)
    show ?thesis
    proof (cases "fl AND PROPF_ENUM \<noteq> 0")
      case True
      with k1 s1 show ?thesis by simp
    next
      case False
      with k1 have "enum_loop n w1 This (Suc i) k = Ret (hres, pid, w')" by simp
      from Suc.IH [OF this] s1 show ?thesis by (auto intro: store_step_trans)
    qed
  qed
qed

lemma GetNextDispID_step:
  assumes "DispatchEx_GetNextDispID n w This grfdex did = Ret (hres, pid, w')"
  shows "store_step w w'"
proof -
  from assms obtain h1 w1 where
    f: "(if did = DISPID_STARTENUM then fill_protrefs n w This else Ret (S_OK, w)) = Ret (h1, w1)"
    and k1: "(if FAILED h1 then Ret (h1, None, w1)
         else
           case objs w1 This of
             None \<Rightarrow> Fault
           | Some d \<Rightarrow>
               (case get_prop d (did + 1) of
                  None \<Rightarrow> Ret (S_FALSE, Some DISPID_STARTENUM, w1)
                | Some i \<Rightarrow> enum_loop n w1 This i (length (props d) - i))) = Ret (hres, pid, w')"
    by (auto simp: DispatchEx_GetNextDispID_def obind_Ret)
  have s1: "store_step w w1"
    using f by (auto split: if_splits dest: fill_protrefs_grows grows_with_step)
  have "store_step w1 w'"
    using k1 by (auto split: if_splits option.splits dest: enum_loop_step)
  with s1 show ?thesis by (rule store_step_trans)
qed


lemma sint_prop_to_id: "i < 2 ^ 31 \<Longrightarrow> sint (prop_to_id i) = int i"
  by (simp add: prop_to_id_def signed_of_nat signed_take_bit_int_eq_self)


lemma get_prop_id:
  "i < length (props d) \<Longrightarrow> i < 2 ^ 31 \<Longrightarrow> p_type (props d ! i) \<noteq> PROP_DELETED
    \<Longrightarrow> get_prop d (prop_to_id i) = Some i"
  by (simp add: get_prop_def sint_prop_to_id)

lemma set_prot_prop_frame:
  assumes "jsdisp_set_prot_prop w This pa = Ret (hres, w')"
  shows "(\<forall>a j. (a, j) \<noteq> (This, 1) \<longrightarrow> slot_at w' a j = slot_at w a j)
       \<and> map_option p_name (slot_at w' This 1) = map_option p_name (slot_at w This 1)
       \<and> (\<not> FAILED hres \<longrightarrow> map_option p_type (slot_at w' This 1) = Some PROP_VARIANT
                           \<and> map_option p_flags (slot_at w' This 1) = Some 0)"
proof -
  from assms obtain d where d: "objs w This = Some d" and l: "\<not> length (props d) < 2"
    by (auto simp: jsdisp_set_prot_prop_def split: option.splits if_splits)
  have sl: "slot_at w This 1 = Some (props d ! 1)"
    using d l by (simp add: slot_at_def)
  show ?thesis
  proof (cases "p_name (props d ! 1) = None")
    case True
    with assms d l have "w' = w" "hres = E_OUTOFMEMORY"
      by (simp_all add: jsdisp_set_prot_prop_def)
    then show ?thesis by (simp add: FAILED_def E_OUTOFMEMORY_def)
  next
    case False
    with assms d l have "w' = upd_slot This 1
        (\<lambda>s. s\<lparr>p_type := PROP_VARIANT, p_flags := 0, p_u := U_var (VT_DISPATCH (Engine pa))\<rparr>) w"
      by (auto simp: jsdisp_set_prot_prop_def split: if_splits)
    then show ?thesis using sl by (auto simp: slot_at_upd_slot)
  qed
qed

section \<open>Releases and calls out of the file\<close>

lemma freed_emit [simp]: "freed (emit e w) = freed w"
  by (simp add: emit_def)

lemma freed_set_obj [simp]: "freed (set_obj a d w) = freed w"
  by (simp add: set_obj_def)

lemma freed_upd_slot [simp]: "freed (upd_slot a i f w) = freed w"
  by (simp add: upd_slot_def split: option.splits)

lemma heap_alloc_freed: "heap_alloc w = (ok, w1) \<Longrightarrow> freed w1 = freed w"
  by (auto simp: heap_alloc_def split: list.splits)

lemma store_evolves_refl [simp]: "store_evolves w w"
  by (simp add: store_evolves_def)


lemma store_evolves_trans:
  assumes "store_evolves w w1" and "store_evolves w1 w2"
  shows "store_evolves w w2"
  unfolding store_evolves_def
proof (intro conjI allI impI)
  show "freed w \<subseteq> freed w2"
    using assms by (auto simp: store_evolves_def)
  fix a d
  assume d: "objs w a = Some d"
  from assms(1) d have "a \<in> freed w1 \<or> (\<exists>d1. objs w1 a = Some d1 \<and> table_step d d1)"
    by (simp add: store_evolves_def)
  then show "a \<in> freed w2 \<or> (\<exists>d'. objs w2 a = Some d' \<and> table_step d d')"
  proof
    assume "a \<in> freed w1"
    with assms(2) show ?thesis by (auto simp: store_evolves_def)
  next
    assume "\<exists>d1. objs w1 a = Some d1 \<and> table_step d d1"
    then obtain d1 where d1: "objs w1 a = Some d1" "table_step d d1" by blast
    from assms(2) d1(1) have "a \<in> freed w2 \<or> (\<exists>d2. objs w2 a = Some d2 \<and> table_step d1 d2)"
      by (simp add: store_evolves_def)
    with d1(2) show ?thesis by (auto intro: table_step_trans)
  qed
qed

lemma store_step_evolves:
  assumes "store_step w w'" and "freed w \<subseteq> freed w'"
  shows "store_evolves w w'"
  unfolding store_evolves_def
proof (intro conjI allI impI)
  show "freed w \<subseteq> freed w'" by fact
  fix a d
  assume d: "objs w a = Some d"
  from assms(1) have "rel_option table_step (objs w a) (objs w' a)" by (simp add: store_step_def)
  with d show "a \<in> freed w' \<or> (\<exists>d'. objs w' a = Some d' \<and> table_step d d')"
    by (cases "objs w' a") auto
qed

lemma store_evolves_same: "objs w' = objs w \<Longrightarrow> freed w' = freed w \<Longrightarrow> store_evolves w w'"
  by (simp add: store_evolves_def)

lemma store_evolves_emit [simp]: "store_evolves w (emit e w)"
  by (simp add: store_evolves_same)

lemma store_evolves_heap_alloc: "heap_alloc w = (ok, w1) \<Longrightarrow> store_evolves w w1"
  by (simp add: store_evolves_same heap_alloc_eq heap_alloc_freed)

lemma store_evolves_set_obj:
  "objs w a = Some d \<Longrightarrow> table_step d d' \<Longrightarrow> store_evolves w (set_obj a d' w)"
  by (rule store_step_evolves) (simp_all add: store_step_set_obj)

lemma store_evolves_upd_slot:
  assumes "\<And>d. objs w a = Some d \<Longrightarrow> i < length (props d) \<Longrightarrow> slot_step (props d ! i) (f (props d ! i))"
  shows "store_evolves w (upd_slot a i f w)"
  by (rule store_step_evolves) (simp_all add: store_step_upd_slot assms)

lemma store_evolves_upd_u:
  assumes "\<And>s. p_name (f s) = p_name s \<and> p_type (f s) = p_type s \<and> p_flags (f s) = p_flags s"
  shows "store_evolves w (upd_slot a i f w)"
  by (rule store_step_evolves) (simp_all add: store_step_upd_u assms)

lemma store_evolves_free:
  "store_evolves w (w\<lparr>objs := (objs w)(a := None), freed := insert a (freed w)\<rparr>)"
  by (auto simp: store_evolves_def)

lemma table_step_ref: "table_step d (d\<lparr>ref := r\<rparr>)"
  by (simp add: table_step_def)

lemma AddRef_evolves: "DispatchEx_AddRef w a = Ret (r, w') \<Longrightarrow> store_evolves w w'"
  by (auto simp: DispatchEx_AddRef_def split: option.splits
        intro!: store_evolves_set_obj table_step_ref)

lemma ext_ok_quiet: "ext_ok quiet_ext"
  by (simp add: ext_ok_def quiet_ext_def)

lemma ext_okD:
  assumes "ext_ok x"
  shows "store_evolves w (snd (snd (x_invoke x f w a flags dp rv)))"
    and "store_evolves w (x_destructor x h w a)"
    and "store_evolves w (x_on_put x h w a name)"
    and "store_evolves w (x_AddRef x g w)"
    and "store_evolves w (x_Release x g w)"
    and "store_evolves w (snd (snd (x_Invoke x g w did flags dp rv2)))"
  using assms by (simp_all add: ext_ok_def)

lemma x_invoke_evolves:
  "ext_ok x \<Longrightarrow> x_invoke x f w a flags dp rv = (h, v, w') \<Longrightarrow> store_evolves w w'"
  using ext_okD(1) [of x w f a flags dp rv] by simp


lemma VariantClear_from_Release:
  assumes x: "ext_ok x"
    and rel: "\<And>w a r w'. DispatchEx_Release x n w a = Ret (r, w') \<Longrightarrow> store_evolves w w'"
    and c: "VariantClear x n w v = Ret w'"
  shows "store_evolves w w'"
proof (cases v)
  case (VT_DISPATCH p)
  show ?thesis
  proof (cases p)
    case (Engine a)
    with c VT_DISPATCH obtain r where "DispatchEx_Release x n w a = Ret (r, w')"
      by (auto simp: VariantClear.simps obind_Ret)
    then show ?thesis by (rule rel)
  next
    case (Foreign g)
    with c VT_DISPATCH have "w' = x_Release x g w" by (simp add: VariantClear.simps)
    then show ?thesis using ext_okD(5) [OF x] by simp
  qed
qed (use c in \<open>auto simp: VariantClear.simps\<close>)

lemma Release_evolves_aux:
  assumes x: "ext_ok x"
  shows "(\<forall>w a r w'. DispatchEx_Release x n w a = Ret (r, w') \<longrightarrow> store_evolves w w')
       \<and> (\<forall>w a j w'. release_props x n w a j = Ret w' \<longrightarrow> store_evolves w w')"
proof (induction n)
  case 0
  show ?case by simp
next
  case (Suc n)
  from Suc have relI: "\<And>w a r w'. DispatchEx_Release x n w a = Ret (r, w') \<Longrightarrow> store_evolves w w'"
    and loopI: "\<And>w a j w'. release_props x n w a j = Ret w' \<Longrightarrow> store_evolves w w'"
    by blast+
  have rel: "store_evolves w w'" if r: "DispatchEx_Release x (Suc n) w a = Ret (r, w')" for w a r w'
  proof -
    from r obtain d where d: "objs w a = Some d"
      by (auto split: option.splits)
    define w1 where "w1 = set_obj a (d\<lparr>ref := ref d - 1\<rparr>) w"
    have s1: "store_evolves w w1"
      unfolding w1_def by (rule store_evolves_set_obj [OF d table_step_ref])
    show ?thesis
    proof (cases "ref d - 1 = 0")
      case False
      with r d have "w' = w1" by (auto simp: Let_def w1_def)
      with s1 show ?thesis by simp
    next
      case True
      with r d obtain w2 d2 where l: "release_props x n w1 a 0 = Ret w2"
        and d2: "objs w2 a = Some d2"
        and k: "(case destructor (builtin_info d2) of
                   Some h \<Rightarrow> Ret (ref d - 1, x_destructor x h
                       (emit (EV_script_release (ctx d2)) (emit (EV_heap_free_props a) w2)) a)
                 | None \<Rightarrow>
                     Ret (ref d - 1, emit (EV_heap_free a)
                       ((emit (EV_script_release (ctx d2)) (emit (EV_heap_free_props a) w2))
                          \<lparr>objs := (objs (emit (EV_script_release (ctx d2)) (emit (EV_heap_free_props a) w2)))(a := None),
                            freed := insert a (freed (emit (EV_script_release (ctx d2)) (emit (EV_heap_free_props a) w2)))\<rparr>)))
               = Ret (r, w')"
        by (auto simp: Let_def w1_def obind_Ret split: option.splits)
      define w4 where "w4 = emit (EV_script_release (ctx d2)) (emit (EV_heap_free_props a) w2)"
      have s2: "store_evolves w1 w2" using l by (rule loopI)
      have s4: "store_evolves w2 w4"
        unfolding w4_def by (rule store_evolves_same) simp_all
      have s5: "store_evolves w4 w'"
      proof (cases "destructor (builtin_info d2)")
        case None
        define wf where "wf = w4\<lparr>objs := (objs w4)(a := None), freed := insert a (freed w4)\<rparr>"
        from None k have e: "w' = emit (EV_heap_free a) wf"
          by (simp add: w4_def wf_def)
        have a1: "store_evolves w4 wf"
          unfolding wf_def by (rule store_evolves_free)
        have a2: "store_evolves wf (emit (EV_heap_free a) wf)"
          by (rule store_evolves_emit)
        from store_evolves_trans [OF a1 a2] e show ?thesis by simp
      next
        case (Some h)
        with k have "w' = x_destructor x h w4 a" by (simp add: w4_def)
        then show ?thesis using ext_okD(2) [OF x] by simp
      qed
      from s1 s2 s4 s5 show ?thesis by (blast intro: store_evolves_trans)
    qed
  qed
  have loop: "store_evolves w w'" if r: "release_props x (Suc n) w a j = Ret w'" for w a j w'
  proof -
    from r obtain d where d: "objs w a = Some d"
      by (auto split: option.splits)
    show ?thesis
    proof (cases "length (props d) \<le> j")
      case True
      with r d show ?thesis by simp
    next
      case False
      show ?thesis
      proof (cases "p_type (props d ! j) = PROP_VARIANT")
        case nv: False
        with r d False have "release_props x n (emit (EV_heap_free_name a j) w) a (Suc j) = Ret w'"
          by simp
        from loopI [OF this] show ?thesis
          by (auto intro: store_evolves_trans [OF store_evolves_emit])
      next
        case True
        with r d False obtain v w1 where v: "p_u (props d ! j) = U_var v"
          and c: "VariantClear x n w v = Ret w1"
          and l: "release_props x n
                    (emit (EV_heap_free_name a j) (upd_slot a j (\<lambda>s. s\<lparr>p_u := U_var VT_EMPTY\<rparr>) w1))
                    a (Suc j) = Ret w'"
          by (auto simp: obind_Ret split: prop_u.splits option.splits if_splits)
        have s1: "store_evolves w w1"
          using x relI c by (rule VariantClear_from_Release)
        have s2: "store_evolves w1 (upd_slot a j (\<lambda>s. s\<lparr>p_u := U_var VT_EMPTY\<rparr>) w1)"
          by (rule store_evolves_upd_u) simp
        have s3: "store_evolves (upd_slot a j (\<lambda>s. s\<lparr>p_u := U_var VT_EMPTY\<rparr>) w1)
            (emit (EV_heap_free_name a j) (upd_slot a j (\<lambda>s. s\<lparr>p_u := U_var VT_EMPTY\<rparr>) w1))"
          by simp
        from s1 s2 s3 loopI [OF l] show ?thesis by (blast intro: store_evolves_trans)
      qed
    qed
  qed
  from rel loop show ?case by blast
qed

lemma Release_evolves:
  "ext_ok x \<Longrightarrow> DispatchEx_Release x n w a = Ret (r, w') \<Longrightarrow> store_evolves w w'"
  using Release_evolves_aux by blast

lemma VariantClear_evolves:
  "ext_ok x \<Longrightarrow> VariantClear x n w v = Ret w' \<Longrightarrow> store_evolves w w'"
  by (rule VariantClear_from_Release) (auto dest: Release_evolves)

lemma VariantCopy_evolves:
  assumes x: "ext_ok x" and c: "VariantCopy x n w dest src = Ret (h, v, w')"
  shows "store_evolves w w'"
proof -
  from c obtain w1 where c1: "VariantClear x n w dest = Ret w1"
    and k: "(case src of
         VT_BSTR s \<Rightarrow>
           (let (ok, w2) = heap_alloc w1
            in if ok then Ret (S_OK, VT_BSTR s, w2) else Ret (E_OUTOFMEMORY, VT_EMPTY, w2))
       | VT_DISPATCH (Engine a) \<Rightarrow>
           obind (DispatchEx_AddRef w1 a) (\<lambda>(r, w2). Ret (S_OK, src, w2))
       | VT_DISPATCH (Foreign f) \<Rightarrow> Ret (S_OK, src, x_AddRef x f w1)
       | _ \<Rightarrow> Ret (S_OK, src, w1)) = Ret (h, v, w')"
    by (auto simp: VariantCopy_def obind_Ret)
  have s1: "store_evolves w w1" using x c1 by (rule VariantClear_evolves)
  have "store_evolves w1 w'"
  proof (cases src)
    case (VT_BSTR s)
    with k show ?thesis
      by (auto simp: Let_def split: prod.splits if_splits dest: store_evolves_heap_alloc)
  next
    case (VT_DISPATCH p)
    with k show ?thesis
      using ext_okD(4) [OF x]
      by (cases p) (auto simp: obind_Ret dest: AddRef_evolves)
  qed (use k in auto)
  with s1 show ?thesis by (rule store_evolves_trans)
qed


lemma prop_put_value_Ret:
  assumes r: "prop_put_value x n w This i dp = Ret (hres, w')"
    and k: "k = length (takeWhile (\<lambda>x. x \<noteq> DISPID_PROPERTYPUT) (rgdispidNamedArgs dp))"
    and nk: "k \<noteq> length (rgdispidNamedArgs dp)"
  shows "\<exists>d old h v w1 d1. objs w This = Some d \<and> i < length (props d) \<and> k < length (rgvarg dp)
      \<and> p_u (props d ! i) = U_var old
      \<and> VariantCopy x n w old (rgvarg dp ! k) = Ret (h, v, w1)
      \<and> objs w1 This = Some d1 \<and> i < length (props d1)
      \<and> (FAILED h \<longrightarrow> hres = h \<and> w' = upd_slot This i (\<lambda>s. s\<lparr>p_u := U_var v\<rparr>) w1)
      \<and> (\<not> FAILED h \<longrightarrow> hres = S_OK
            \<and> w' = (case on_put (builtin_info d1) of
                      Some hk \<Rightarrow> x_on_put x hk (upd_slot This i (\<lambda>s. s\<lparr>p_u := U_var v\<rparr>) w1) This
                                   (p_name (props d1 ! i))
                    | None \<Rightarrow> upd_slot This i (\<lambda>s. s\<lparr>p_u := U_var v\<rparr>) w1))"
proof -
  from r nk have kl: "k < length (rgvarg dp)"
    by (auto simp: prop_put_value_def Let_def k [symmetric] split: if_splits)
  from r nk kl obtain d where d: "objs w This = Some d"
    by (auto simp: prop_put_value_def Let_def k [symmetric] split: if_splits option.splits)
  from r nk kl d have i: "i < length (props d)"
    by (auto simp: prop_put_value_def Let_def k [symmetric] split: if_splits)
  from r nk kl d i obtain old where old: "p_u (props d ! i) = U_var old"
    by (auto simp: prop_put_value_def Let_def k [symmetric] split: if_splits prop_u.splits)
  from r nk kl d i old have
    "obind (VariantCopy x n w old (rgvarg dp ! k)) (\<lambda>(hres, v, w1).
        case objs w1 This of
          None \<Rightarrow> Fault
        | Some d1 \<Rightarrow>
            if length (props d1) \<le> i then Fault
            else
              let w2 = upd_slot This i (\<lambda>s. s\<lparr>p_u := U_var v\<rparr>) w1
              in if FAILED hres then Ret (hres, w2)
                 else
                   (case on_put (builtin_info d1) of
                      Some h \<Rightarrow> Ret (S_OK, x_on_put x h w2 This (p_name (props d1 ! i)))
                    | None \<Rightarrow> Ret (S_OK, w2))) = Ret (hres, w')"
    by (simp add: prop_put_value_def Let_def k [symmetric])
  then obtain h v w1 where vc: "VariantCopy x n w old (rgvarg dp ! k) = Ret (h, v, w1)"
    and c1: "(case objs w1 This of
          None \<Rightarrow> Fault
        | Some d1 \<Rightarrow>
            if length (props d1) \<le> i then Fault
            else
              let w2 = upd_slot This i (\<lambda>s. s\<lparr>p_u := U_var v\<rparr>) w1
              in if FAILED h then Ret (h, w2)
                 else
                   (case on_put (builtin_info d1) of
                      Some hk \<Rightarrow> Ret (S_OK, x_on_put x hk w2 This (p_name (props d1 ! i)))
                    | None \<Rightarrow> Ret (S_OK, w2))) = Ret (hres, w')"
    by (auto simp: obind_Ret)
  from c1 obtain d1 where d1: "objs w1 This = Some d1"
    by (auto split: option.splits)
  from c1 d1 have i1: "i < length (props d1)"
    by (auto split: if_splits)
  from c1 d1 i1 have
    "(FAILED h \<longrightarrow> hres = h \<and> w' = upd_slot This i (\<lambda>s. s\<lparr>p_u := U_var v\<rparr>) w1)
      \<and> (\<not> FAILED h \<longrightarrow> hres = S_OK
            \<and> w' = (case on_put (builtin_info d1) of
                      Some hk \<Rightarrow> x_on_put x hk (upd_slot This i (\<lambda>s. s\<lparr>p_u := U_var v\<rparr>) w1) This
                                   (p_name (props d1 ! i))
                    | None \<Rightarrow> upd_slot This i (\<lambda>s. s\<lparr>p_u := U_var v\<rparr>) w1))"
    by (auto simp: Let_def split: option.splits)
  with d i kl old vc d1 i1 show ?thesis by blast
qed

lemma prop_put_value_evolves:
  assumes x: "ext_ok x" and r: "prop_put_value x n w This i dp = Ret (hres, w')"
  shows "store_evolves w w'"
proof -
  define k where "k = length (takeWhile (\<lambda>x. x \<noteq> DISPID_PROPERTYPUT) (rgdispidNamedArgs dp))"
  show ?thesis
  proof (cases "k = length (rgdispidNamedArgs dp)")
    case True
    with r have "w' = w" by (simp add: prop_put_value_def Let_def k_def)
    then show ?thesis by simp
  next
    case False
    from prop_put_value_Ret [OF r k_def False] obtain d0 old h v w1 d1 where
      "objs w This = Some d0" "i < length (props d0)" "k < length (rgvarg dp)"
      "p_u (props d0 ! i) = U_var old"
      and vc: "VariantCopy x n w old (rgvarg dp ! k) = Ret (h, v, w1)"
      and "objs w1 This = Some d1" "i < length (props d1)"
      and f1: "FAILED h \<longrightarrow> hres = h \<and> w' = upd_slot This i (\<lambda>s. s\<lparr>p_u := U_var v\<rparr>) w1"
      and f2: "\<not> FAILED h \<longrightarrow> hres = S_OK
            \<and> w' = (case on_put (builtin_info d1) of
                      Some hk \<Rightarrow> x_on_put x hk (upd_slot This i (\<lambda>s. s\<lparr>p_u := U_var v\<rparr>) w1) This
                                   (p_name (props d1 ! i))
                    | None \<Rightarrow> upd_slot This i (\<lambda>s. s\<lparr>p_u := U_var v\<rparr>) w1)"
      by (elim exE conjE) (rule that; assumption)
    have s1: "store_evolves w w1" using x vc by (rule VariantCopy_evolves)
    have s2: "store_evolves w1 (upd_slot This i (\<lambda>s. s\<lparr>p_u := U_var v\<rparr>) w1)"
      by (rule store_evolves_upd_u) simp
    from f1 f2 have s3: "store_evolves (upd_slot This i (\<lambda>s. s\<lparr>p_u := U_var v\<rparr>) w1) w'"
      using ext_okD(3) [OF x] by (cases "FAILED h") (auto split: option.splits)
    from s1 s2 s3 show ?thesis by (blast intro: store_evolves_trans)
  qed
qed

lemma prop_put_evolves:
  assumes x: "ext_ok x" and r: "prop_put x n w This i dp = Ret (hres, w')"
  shows "store_evolves w w'"
proof -
  from r obtain d where d: "objs w This = Some d" and i: "i < length (props d)"
    by (auto simp: prop_put_def split: option.splits if_splits)
  define shadow where "shadow = upd_slot This i
      (\<lambda>s. s\<lparr>p_type := PROP_VARIANT, p_flags := PROPF_ENUM, p_u := U_var VT_EMPTY\<rparr>) w"
  have sh: "p_type (props d ! i) = PROP_BUILTIN \<or> p_type (props d ! i) = PROP_PROTREF
      \<Longrightarrow> store_evolves w shadow"
    unfolding shadow_def by (rule store_evolves_upd_slot) (use d in \<open>auto simp: slot_step_def\<close>)
  show ?thesis
  proof (cases "p_type (props d ! i)")
    case PROP_VARIANT
    with r d i obtain v w1 where v: "p_u (props d ! i) = U_var v"
      and c: "VariantClear x n w v = Ret w1"
      and p: "prop_put_value x n (upd_slot This i (\<lambda>s. s\<lparr>p_u := U_var VT_EMPTY\<rparr>) w1) This i dp
              = Ret (hres, w')"
      by (auto simp: prop_put_def Let_def obind_Ret split: prop_u.splits option.splits if_splits)
    have s1: "store_evolves w w1" using x c by (rule VariantClear_evolves)
    have s2: "store_evolves w1 (upd_slot This i (\<lambda>s. s\<lparr>p_u := U_var VT_EMPTY\<rparr>) w1)"
      by (rule store_evolves_upd_u) simp
    from s1 s2 prop_put_value_evolves [OF x p] show ?thesis
      by (blast intro: store_evolves_trans)
  next
    case PROP_BUILTIN
    show ?thesis
    proof (cases "p_flags (props d ! i) AND PROPF_METHOD = 0")
      case True
      with r d i PROP_BUILTIN show ?thesis
        by (auto simp: prop_put_def Let_def split: prop_u.splits option.splits prod.splits
              dest: x_invoke_evolves [OF x])
    next
      case False
      with r d i PROP_BUILTIN have "prop_put_value x n shadow This i dp = Ret (hres, w')"
        by (simp add: prop_put_def Let_def shadow_def)
      from prop_put_value_evolves [OF x this] sh PROP_BUILTIN show ?thesis
        by (auto intro: store_evolves_trans)
    qed
  next
    case PROP_PROTREF
    with r d i have "prop_put_value x n shadow This i dp = Ret (hres, w')"
      by (simp add: prop_put_def Let_def shadow_def)
    from prop_put_value_evolves [OF x this] sh PROP_PROTREF show ?thesis
      by (auto intro: store_evolves_trans)
  next
    case PROP_DELETED
    with r d i have "w' = w" by (simp add: prop_put_def Let_def)
    then show ?thesis by simp
  qed
qed











section \<open>A put without a value\<close>






section \<open>What the search along the prototype chain appends\<close>

text \<open>
  Against claim C4 as stated: \<open>O\<close> (at address 2) has the prototype \<open>P\<close> (at address
  1), whose class has the built-in \<open>greet\<close>. Resolving \<open>greet\<close> on \<open>O\<close>, without the
  permission to create, appends a BUILTIN slot to the table of \<open>P\<close>.
\<close>

theorem find_prop_name_prot_counterexample:
  "map_option (length \<circ> props) (objs world_PO 1) = Some 2
   \<and> (case find_prop_name_prot (Suc (Suc 0)) world_PO 2 (Some ''greet'') False of
         Ret (hres, ret, w') \<Rightarrow>
           hres = S_OK \<and> ret = Some 2
           \<and> map_option (length \<circ> props) (objs w' 1) = Some 3
           \<and> map_option p_type (slot_at w' 1 2) = Some PROP_BUILTIN
           \<and> map_option p_name (slot_at w' 1 2) = Some (Some ''greet'')
       | _ \<Rightarrow> False)"
  by (simp add: fixture_defs engine_defs bsearch_loop.simps)

text \<open>
  Claim C4, amended. A name resolution never changes or removes a slot of any object,
  and creates and frees no object; what it appends to the table of an object other
  than the one it was called on is a materialised BUILTIN slot or a cached PROTREF
  slot, never a new own VARIANT slot. A VARIANT slot is appended only to the object
  the resolution was called on, and only when creation is allowed.
\<close>

theorem find_prop_name_prot_appends:
  assumes "find_prop_name_prot n w This name alloc = Ret (hres, ret, w')"
  shows "(\<forall>a. objs w a = None \<longrightarrow> objs w' a = None)
       \<and> (\<forall>a d. objs w a = Some d \<longrightarrow>
            (\<exists>d' new. objs w' a = Some d' \<and> props d' = props d @ new
               \<and> (\<forall>s\<in>set new. p_type s = PROP_BUILTIN \<or> p_type s = PROP_PROTREF
                     \<or> alloc \<and> a = This \<and> p_type s = PROP_VARIANT)))"
proof (intro conjI allI impI)
  from find_prop_name_prot_grows [OF assms]
  have g: "\<And>a. rel_option (table_grows (lookup_kinds This alloc a)) (objs w a) (objs w' a)"
    by (simp add: grows_with_def)
  {
    fix a
    assume "objs w a = None"
    with g [of a] show "objs w' a = None" by (cases "objs w' a") auto
  }
  {
    fix a d
    assume "objs w a = Some d"
    with g [of a] obtain d' where "objs w' a = Some d'" "table_grows (lookup_kinds This alloc a) d d'"
      by (cases "objs w' a") auto
    then show "\<exists>d' new. objs w' a = Some d' \<and> props d' = props d @ new
               \<and> (\<forall>s\<in>set new. p_type s = PROP_BUILTIN \<or> p_type s = PROP_PROTREF
                     \<or> alloc \<and> a = This \<and> p_type s = PROP_VARIANT)"
      by (auto simp: table_grows_def lookup_kinds_def list_all_iff)
  }
qed

theorem find_prop_name_prot_appends_witness:
  "case find_prop_name_prot (Suc (Suc 0)) world_PO 2 (Some ''greet'') False of
     Ret (hres, ret, w') \<Rightarrow>
       (\<exists>d' new. objs w' 1 = Some d' \<and> props d' = props proto_P @ new
          \<and> list_all (\<lambda>s. p_type s = PROP_BUILTIN \<or> p_type s = PROP_PROTREF) new)
   | _ \<Rightarrow> False"
proof -
  have "case find_prop_name_prot (Suc (Suc 0)) world_PO 2 (Some ''greet'') False of
     Ret x \<Rightarrow> True | _ \<Rightarrow> False"
    by (simp add: fixture_defs engine_defs bsearch_loop.simps)
  then obtain hres ret w' where
    e: "find_prop_name_prot (Suc (Suc 0)) world_PO 2 (Some ''greet'') False = Ret (hres, ret, w')"
    by (cases "find_prop_name_prot (Suc (Suc 0)) world_PO 2 (Some ''greet'') False") auto
  have p: "objs world_PO 1 = Some proto_P" by (simp add: world_PO_def)
  from find_prop_name_prot_appends [OF e, THEN conjunct2, THEN spec, THEN spec, THEN mp, OF p]
  show ?thesis using e by (auto simp: list_all_iff)
qed

section \<open>Evaluations at failing inputs\<close>

lemmas fixture2_defs = full_table_def world_full_def world_x_oom_def world_init_def zero_DispatchEx_def

text \<open>
  Claim C5, evaluated where the code departs from it. First, a table that is full
  (4 slots, \<open>buf_size\<close> 4) and a realloc that fails: the lookup that wanted a new slot
  reports E_OUTOFMEMORY, and \<open>buf_size\<close> is 8 afterwards although the array still
  has room for 4, so that the next \<open>alloc_prop\<close> writes outside it. Second, a table
  with room and a name copy that fails: E_OUTOFMEMORY again, and the table has gained
  a fourth slot, nameless and with an unwritten payload.
\<close>

theorem alloc_prop_failure_keeps_mutation:
  "map_option buf_size (objs world_full 1) = Some 4
   \<and> (case find_prop_name_prot (Suc 0) world_full 1 (Some ''z'') True of
         Ret (hres, ret, w') \<Rightarrow>
           hres = E_OUTOFMEMORY \<and> ret = None
           \<and> map_option buf_size (objs w' 1) = Some 8
           \<and> map_option props_alloc (objs w' 1) = Some 4
           \<and> alloc_prop w' 1 (Some ''z'') PROP_VARIANT PROPF_ENUM = Fault
       | _ \<Rightarrow> False)
   \<and> map_option (length \<circ> props) (objs world_x_oom 1) = Some 3
   \<and> (case find_prop_name_prot (Suc 0) world_x_oom 1 (Some ''z'') True of
         Ret (hres, ret, w') \<Rightarrow>
           hres = E_OUTOFMEMORY \<and> ret = None
           \<and> map_option (length \<circ> props) (objs w' 1) = Some 4
           \<and> slot_at w' 1 3
               = Some \<lparr>p_name = None, p_type = PROP_VARIANT, p_flags = PROPF_ENUM, p_u = U_unset\<rparr>
       | _ \<Rightarrow> False)"
  by (simp add: fixture_defs fixture2_defs engine_defs bsearch_loop.simps)

text \<open>
  Claim C3, evaluated where the code departs from it. The object has no prototype
  and no default-value built-in, so its slot 0 is a tombstone; its slot 2 is the
  enumerable own property \<open>x\<close>. Started from DISPID_STARTENUM, the enumeration looks
  slot 0 up with \<open>get_prop\<close>, which rejects tombstones, and signals "no more" at
  once; started from the identifier 1 it yields the identifier 2. On an object that
  has a prototype, the start of an enumeration compares names with the NULL name of
  the prototype's slot 0 and faults.
\<close>

theorem enumeration_stops_at_tombstone:
  "slot_at world_x 1 2
     = Some \<lparr>p_name = Some ''x'', p_type = PROP_VARIANT, p_flags = PROPF_ENUM, p_u = U_var (VT_I4 5)\<rparr>
   \<and> DispatchEx_GetNextDispID (Suc 0) world_x 1 0 DISPID_STARTENUM
       = Ret (S_FALSE, Some DISPID_STARTENUM, world_x)
   \<and> DispatchEx_GetNextDispID (Suc 0) world_x 1 0 1 = Ret (S_OK, Some 2, world_x)
   \<and> DispatchEx_GetNextDispID (Suc (Suc 0)) world_PO 2 0 DISPID_STARTENUM = Fault"
  by (simp add: fixture_defs engine_defs DispatchEx_GetNextDispID_def DISPID_STARTENUM_def
        prop_to_id_def bsearch_loop.simps)

text \<open>
  Claim C2, evaluated where the code departs from it. \<open>init_dispex\<close> is given the
  prototype at address 1, whose count is 2, and the allocation of the name of slot 1
  fails. The prototype's count has been raised to 3; \<open>jsdisp_set_prot_prop\<close> fails;
  the object is released, its count reaches zero and it is destroyed; the destruction
  frees the names, the array and the object, and releases nothing the prototype is
  held by: the count stays 3. This holds in every environment, since no code outside
  the file is reached. For comparison, the destruction of an object whose slot 1
  holds the prototype clears that slot's payload, which releases the prototype: its
  count goes from 2 to 1.
\<close>

theorem failed_init_keeps_prototype_reference:
  "map_option ref (objs world_init 1) = Some 2
   \<and> (case init_dispex x (Suc (Suc (Suc (Suc 0)))) world_init 3 0 dispex_info (Some 1) of
         Ret (hres, w') \<Rightarrow>
           hres = E_OUTOFMEMORY
           \<and> objs w' 3 = None
           \<and> map_option ref (objs w' 1) = Some 3
           \<and> trace w' = [EV_heap_free_name 3 0, EV_heap_free_name 3 1, EV_heap_free_props 3,
                          EV_script_release None, EV_heap_free 3]
       | _ \<Rightarrow> False)
   \<and> map_option ref (objs world_PO 1) = Some 2
   \<and> (case DispatchEx_Release x (Suc (Suc (Suc (Suc 0)))) world_PO 2 of
         Ret (r, w') \<Rightarrow>
           r = 0 \<and> objs w' 2 = None
           \<and> map_option ref (objs w' 1) = Some 1
           \<and> trace w' = [EV_heap_free_name 2 0, EV_heap_free_name 2 1,
                          EV_heap_free_props 2, EV_script_release (Some 0), EV_heap_free 2]
       | _ \<Rightarrow> False)"
  by (simp add: fixture_defs fixture2_defs engine_defs init_dispex_def DispatchEx_AddRef_def
        jsdisp_set_prot_prop_def)
section \<open>A stale reference into the prototype\<close>

lemma get_prop_stale:
  "length (props pd) \<le> unat r \<or> p_type (props pd ! unat r) = PROP_DELETED \<Longrightarrow> get_prop pd r = None"
proof (cases "sint r < 0")
  case True
  then show ?thesis by (simp add: get_prop_def)
next
  case False
  then have nn: "0 \<le> sint r" by simp
  have "sint r < 2 ^ 32"
    using sint_less [of r] by simp
  then have "take_bit 32 (sint r) = sint r"
    using nn by (simp add: take_bit_int_eq_self)
  then have "sint r = uint r"
    using uint_sint [of r] by simp
  also have "uint r = int (unat r)"
    by (rule uint_nat)
  finally have e: "sint r = int (unat r)" .
  have idx: "nat (sint r) = unat r"
    by (simp only: e nat_int)
  assume a: "length (props pd) \<le> unat r \<or> p_type (props pd ! unat r) = PROP_DELETED"
  show ?thesis
  proof (cases "length (props pd) \<le> unat r")
    case True
    then have "int (length (props pd)) \<le> sint r"
      by (simp only: e of_nat_le_iff)
    then show ?thesis by (simp add: get_prop_def)
  next
    case False
    with a have "p_type (props pd ! unat r) = PROP_DELETED"
      by blast
    then have "p_type (props pd ! nat (sint r)) = PROP_DELETED"
      by (simp only: idx)
    then show ?thesis by (simp add: get_prop_def)
  qed
qed

text \<open>
  Claim C7. A local PROTREF slot refers to a slot of the prototype that is out of
  range or a tombstone. Then asking for the local slot's effective flags reports
  empty flags and turns the local slot itself into a tombstone, leaving its name and
  every other slot as they were; and a get by that slot's identifier on the object
  afterwards reports DISP_E_MEMBERNOTFOUND, whatever the fuel, the arguments and the
  environment.
\<close>

theorem stale_protref_heals:
  assumes "objs w This = Some d" and "i < length (props d)" and "i < 2 ^ 31"
    and "p_type (props d ! i) = PROP_PROTREF" and "p_u (props d ! i) = U_ref r"
    and "prototype d = Some pa" and "objs w pa = Some pd"
    and "length (props pd) \<le> unat r \<or> p_type (props pd ! unat r) = PROP_DELETED"
  shows "\<exists>w'. get_flags (Suc n) w This i = Ret (0, w')
      \<and> slot_at w' This i = Some ((props d ! i)\<lparr>p_type := PROP_DELETED\<rparr>)
      \<and> (\<forall>a j. (a, j) \<noteq> (This, i) \<longrightarrow> slot_at w' a j = slot_at w a j)
      \<and> DispatchEx_InvokeEx x m w' This (prop_to_id i) DISPATCH_PROPERTYGET dp
          = Ret (DISP_E_MEMBERNOTFOUND, VT_EMPTY, w')"
proof -
  define w' where "w' = upd_slot This i (\<lambda>s. s\<lparr>p_type := PROP_DELETED\<rparr>) w"
  have gp: "get_prop pd r = None" using assms(8) by (rule get_prop_stale)
  have g: "get_flags (Suc n) w This i = Ret (0, w')"
    using assms gp by (simp add: w'_def)
  have sl: "slot_at w This i = Some (props d ! i)"
    using assms by (simp add: slot_at_def)
  have s1: "slot_at w' This i = Some ((props d ! i)\<lparr>p_type := PROP_DELETED\<rparr>)"
    using sl by (simp add: w'_def slot_at_upd_slot)
  have s2: "\<forall>a j. (a, j) \<noteq> (This, i) \<longrightarrow> slot_at w' a j = slot_at w a j"
    by (auto simp: w'_def slot_at_upd_slot)
  obtain d' where d': "objs w' This = Some d'" "i < length (props d')" "p_type (props d' ! i) = PROP_DELETED"
    using assms by (auto simp: w'_def upd_slot_def)
  have "get_prop d' (prop_to_id i) = None"
    using d' sint_prop_to_id [OF assms(3)] by (simp add: get_prop_def)
  then have "DispatchEx_InvokeEx x m w' This (prop_to_id i) DISPATCH_PROPERTYGET dp
          = Ret (DISP_E_MEMBERNOTFOUND, VT_EMPTY, w')"
    using d' by (simp add: DispatchEx_InvokeEx_def)
  with g s1 s2 show ?thesis by blast
qed

theorem stale_protref_heals_witness:
  "\<exists>w'. get_flags (Suc 0) world_stale 2 2 = Ret (0, w')
     \<and> slot_at w' 2 2 = Some \<lparr>p_name = Some ''gone'', p_type = PROP_DELETED, p_flags = 0, p_u = U_ref 2\<rparr>
     \<and> DispatchEx_InvokeEx quiet_ext (Suc 0) w' 2 2 DISPATCH_PROPERTYGET no_args
         = Ret (DISP_E_MEMBERNOTFOUND, VT_EMPTY, w')"
proof -
  have h: "objs world_stale 2 = Some stale_O" "2 < length (props stale_O)" "(2::nat) < 2 ^ 31"
    "p_type (props stale_O ! 2) = PROP_PROTREF" "p_u (props stale_O ! 2) = U_ref 2"
    "prototype stale_O = Some 1" "objs world_stale 1 = Some stale_P"
    "length (props stale_P) \<le> unat (2 :: 32 word) \<or> p_type (props stale_P ! unat (2 :: 32 word)) = PROP_DELETED"
    by (simp_all add: world_stale_def stale_O_def stale_P_def)
  from stale_protref_heals [OF h, of 0 quiet_ext "Suc 0" no_args]
  show ?thesis by (auto simp: stale_O_def prop_to_id_def)
qed

section \<open>Own slots win, and a put stays local\<close>

lemma scan_names_first:
  "i < length ps \<Longrightarrow> p_name (ps ! i) = Some N \<Longrightarrow> cstring N
   \<Longrightarrow> (\<forall>j<i. \<forall>x. p_name (ps ! j) = Some x \<longrightarrow> cstring x \<and> x \<noteq> N)
   \<Longrightarrow> scan_names ps (Some N) k = Ret (Some (k + i))"
proof (induction ps arbitrary: i k)
  case Nil
  then show ?case by simp
next
  case (Cons p ps)
  show ?case
  proof (cases i)
    case 0
    with Cons.prems show ?thesis by (simp add: strcmpW_refl)
  next
    case (Suc i')
    have hd: "\<forall>x. p_name p = Some x \<longrightarrow> strcmpW x N \<noteq> 0"
    proof (intro allI impI)
      fix x
      assume x: "p_name p = Some x"
      with Cons.prems(4) Suc have "cstring x \<and> x \<noteq> N" by auto
      then show "strcmpW x N \<noteq> 0" using strcmpW_eq0 Cons.prems(3) by blast
    qed
    have "scan_names ps (Some N) (Suc k) = Ret (Some (Suc k + i'))"
    proof (rule Cons.IH)
      show "i' < length ps" using Cons.prems(1) Suc by simp
      show "p_name (ps ! i') = Some N" using Cons.prems(2) Suc by simp
      show "cstring N" by fact
      show "\<forall>j<i'. \<forall>x. p_name (ps ! j) = Some x \<longrightarrow> cstring x \<and> x \<noteq> N"
        using Cons.prems(4) Suc by auto
    qed
    then show ?thesis using hd Suc by (auto split: option.splits)
  qed
qed

lemma first_named_scan:
  assumes "first_named d i N" and "cstring N"
  shows "scan_names (props d) (Some N) 0 = Ret (Some i)"
proof -
  from assms(1) have i: "i < length (props d)" and n: "p_name (props d ! i) = Some N"
    and l: "list_all (\<lambda>s. case p_name s of Some y \<Rightarrow> cstring y \<and> y \<noteq> N | None \<Rightarrow> True)
            (take i (props d))"
    by (simp_all add: first_named_def)
  have "\<forall>j<i. \<forall>x. p_name (props d ! j) = Some x \<longrightarrow> cstring x \<and> x \<noteq> N"
  proof (intro allI impI)
    fix j x
    assume j: "j < i" and x: "p_name (props d ! j) = Some x"
    from l j i have "case p_name (take i (props d) ! j) of Some y \<Rightarrow> cstring y \<and> y \<noteq> N | None \<Rightarrow> True"
      by (simp add: list_all_length)
    with j x show "cstring x \<and> x \<noteq> N" by simp
  qed
  from scan_names_first [OF i n assms(2) this, of 0] show ?thesis by simp
qed

lemma slot_at_props:
  "map_option props (objs w' a) = map_option props (objs w a) \<Longrightarrow> slot_at w' a j = slot_at w a j"
  by (cases "objs w a"; cases "objs w' a") (auto simp: slot_at_def)

lemma alloc_ok_heap_alloc: "alloc_ok w \<Longrightarrow> \<exists>w1. heap_alloc w = (True, w1) \<and> objs w1 = objs w"
  by (auto simp: alloc_ok_def heap_alloc_def split: list.splits)

text \<open>
  Copying a plain value into an empty variable succeeds on a heap whose next allocation
  succeeds, and changes at most the count of the object the value points to.
\<close>

lemma VariantCopy_plain:
  assumes "alloc_ok w" and "plain_value w src"
  shows "\<exists>w'. VariantCopy x n w VT_EMPTY src = Ret (S_OK, src, w')
      \<and> (\<forall>a. map_option props (objs w' a) = map_option props (objs w a))
      \<and> (\<forall>a. map_option builtin_info (objs w' a) = map_option builtin_info (objs w a))"
proof (cases src)
  case VT_EMPTY
  then show ?thesis by (simp add: VariantCopy_def VariantClear.simps)
next
  case (VT_I4 k)
  then show ?thesis by (simp add: VariantCopy_def VariantClear.simps)
next
  case (VT_BSTR s)
  from alloc_ok_heap_alloc [OF assms(1)] obtain w1 where "heap_alloc w = (True, w1)" "objs w1 = objs w"
    by blast
  with VT_BSTR show ?thesis by (simp add: VariantCopy_def VariantClear.simps)
next
  case (VT_DISPATCH p)
  with assms(2) obtain a da where p: "p = Engine a" and da: "objs w a = Some da"
    by (cases p) (auto simp: plain_value_def)
  with VT_DISPATCH show ?thesis
    by (simp add: VariantCopy_def VariantClear.simps DispatchEx_AddRef_def)
qed

lemma prop_put_value_plain:
  assumes d: "objs w This = Some d" and i: "i < length (props d)"
    and u: "p_u (props d ! i) = U_var VT_EMPTY"
    and k: "k = length (takeWhile (\<lambda>x. x \<noteq> DISPID_PROPERTYPUT) (rgdispidNamedArgs dp))"
      "k < length (rgdispidNamedArgs dp)" "k < length (rgvarg dp)"
    and ok: "alloc_ok w" and pl: "plain_value w (rgvarg dp ! k)"
  shows "\<exists>w2. slot_at w2 This i = Some ((props d ! i)\<lparr>p_u := U_var (rgvarg dp ! k)\<rparr>)
      \<and> (\<forall>a. a \<noteq> This \<longrightarrow> map_option props (objs w2 a) = map_option props (objs w a))
      \<and> (\<forall>j. j \<noteq> i \<longrightarrow> slot_at w2 This j = slot_at w This j)
      \<and> prop_put_value x n w This i dp
          = Ret (S_OK, case on_put (builtin_info d) of
                         None \<Rightarrow> w2
                       | Some h \<Rightarrow> x_on_put x h w2 This (p_name (props d ! i)))"
proof -
  from VariantCopy_plain [OF ok pl, of x n] obtain w1 where
    vc: "VariantCopy x n w VT_EMPTY (rgvarg dp ! k) = Ret (S_OK, rgvarg dp ! k, w1)"
    and f1: "\<forall>a. map_option props (objs w1 a) = map_option props (objs w a)"
    and f2: "\<forall>a. map_option builtin_info (objs w1 a) = map_option builtin_info (objs w a)"
    by blast
  from f1 [THEN spec, of This] f2 [THEN spec, of This] d obtain d1 where
    d1: "objs w1 This = Some d1" "props d1 = props d" "builtin_info d1 = builtin_info d"
    by (cases "objs w1 This") auto
  define w2 where "w2 = upd_slot This i (\<lambda>s. s\<lparr>p_u := U_var (rgvarg dp ! k)\<rparr>) w1"
  have sl1: "slot_at w1 This j = slot_at w This j" for j
    by (rule slot_at_props) (rule f1 [THEN spec])
  have s: "slot_at w2 This i = Some ((props d ! i)\<lparr>p_u := U_var (rgvarg dp ! k)\<rparr>)"
    using d i by (simp add: w2_def slot_at_upd_slot sl1) (simp add: slot_at_def)
  have fr1: "\<forall>a. a \<noteq> This \<longrightarrow> map_option props (objs w2 a) = map_option props (objs w a)"
    using f1 d1 by (simp add: w2_def objs_upd_slot)
  have fr2: "\<forall>j. j \<noteq> i \<longrightarrow> slot_at w2 This j = slot_at w This j"
    by (simp add: w2_def slot_at_upd_slot sl1)
  have nf: "\<not> FAILED S_OK" by (simp add: FAILED_def S_OK_def)
  have kk: "k \<noteq> length (rgdispidNamedArgs dp)" "\<not> length (rgvarg dp) \<le> k"
    using k by simp_all
  have "prop_put_value x n w This i dp
      = Ret (S_OK, case on_put (builtin_info d) of
                     None \<Rightarrow> w2
                   | Some h \<Rightarrow> x_on_put x h w2 This (p_name (props d ! i)))"
    unfolding prop_put_value_def Let_def k(1) [symmetric]
    using kk d i u vc d1 nf
    by (simp add: w2_def split: option.splits)
  with s fr1 fr2 show ?thesis by blast
qed

lemma alloc_ok_upd_slot [simp]: "alloc_ok (upd_slot a i f w) = alloc_ok w"
  by (simp add: alloc_ok_def upd_slot_def set_obj_def split: option.splits)

lemma plain_value_upd_slot [simp]: "plain_value (upd_slot a i f w) v = plain_value w v"
  by (cases v) (auto simp: plain_value_def objs_upd_slot split: option.splits iface.splits)

lemma alloc_ok_emit [simp]: "alloc_ok (emit e w) = alloc_ok w"
  by (simp add: alloc_ok_def emit_def)

lemma plain_value_emit [simp]: "plain_value (emit e w) v = plain_value w v"
  by (cases v) (auto simp: plain_value_def split: iface.splits)

lemma objs_upd_slot_other: "a \<noteq> b \<Longrightarrow> objs (upd_slot a i f w) b = objs w b"
  by (simp add: objs_upd_slot split: option.splits)

text \<open>
  A put of a plain value to a slot whose old payload is released without a call:
  \<open>g\<close> is what the switch of \<open>prop_put\<close> does to the slot, and \<open>w0\<close> the state after
  the release.
\<close>

lemma prop_put_plain_aux:
  assumes d: "objs w0 This = Some d" and i: "i < length (props d)"
    and g: "p_u (g (props d ! i)) = U_var VT_EMPTY"
    and k: "k = length (takeWhile (\<lambda>x. x \<noteq> DISPID_PROPERTYPUT) (rgdispidNamedArgs dp))"
      "k < length (rgdispidNamedArgs dp)" "k < length (rgvarg dp)"
    and ok: "alloc_ok w0" and pl: "plain_value w0 (rgvarg dp ! k)"
  shows "\<exists>w2. slot_at w2 This i = Some ((g (props d ! i))\<lparr>p_u := U_var (rgvarg dp ! k)\<rparr>)
      \<and> (\<forall>a. a \<noteq> This \<longrightarrow> map_option props (objs w2 a) = map_option props (objs w0 a))
      \<and> (\<forall>j. j \<noteq> i \<longrightarrow> slot_at w2 This j = slot_at w0 This j)
      \<and> prop_put_value x n (upd_slot This i g w0) This i dp
          = Ret (S_OK, case on_put (builtin_info d) of
                         None \<Rightarrow> w2
                       | Some h \<Rightarrow> x_on_put x h w2 This (p_name (g (props d ! i))))"
proof -
  define ds where "ds = d\<lparr>props := (props d)[i := g (props d ! i)]\<rparr>"
  have ds: "objs (upd_slot This i g w0) This = Some ds" "i < length (props ds)"
    "p_u (props ds ! i) = U_var VT_EMPTY" "props ds ! i = g (props d ! i)"
    "builtin_info ds = builtin_info d"
    using d i g by (simp_all add: ds_def objs_upd_slot)
  from prop_put_value_plain [OF ds(1-3) k, of x n] ok pl
  obtain w2 where
    s: "slot_at w2 This i = Some ((props ds ! i)\<lparr>p_u := U_var (rgvarg dp ! k)\<rparr>)"
    and fr1: "\<forall>a. a \<noteq> This \<longrightarrow>
        map_option props (objs w2 a) = map_option props (objs (upd_slot This i g w0) a)"
    and fr2: "\<forall>j. j \<noteq> i \<longrightarrow> slot_at w2 This j = slot_at (upd_slot This i g w0) This j"
    and r: "prop_put_value x n (upd_slot This i g w0) This i dp
          = Ret (S_OK, case on_put (builtin_info ds) of
                         None \<Rightarrow> w2
                       | Some h \<Rightarrow> x_on_put x h w2 This (p_name (props ds ! i)))"
    by auto
  from fr1 have "\<forall>a. a \<noteq> This \<longrightarrow> map_option props (objs w2 a) = map_option props (objs w0 a)"
    by (simp add: objs_upd_slot_other)
  moreover from fr2 have "\<forall>j. j \<noteq> i \<longrightarrow> slot_at w2 This j = slot_at w0 This j"
    by (simp add: slot_at_upd_slot)
  ultimately show ?thesis
    using s [unfolded ds(4)] r [unfolded ds(4) ds(5)] by blast
qed

lemma own_slot_found:
  assumes "objs w This = Some d" and "first_named d i N" and "cstring N"
  shows "find_prop_name_prot (Suc n) w This (Some N) alloc = Ret (S_OK, Some i, w)"
proof -
  have "find_prop_name w This (Some N) = Ret (S_OK, Some i, w)"
    using assms(1) first_named_scan [OF assms(2,3)] by (simp add: find_prop_name_def)
  then show ?thesis by (simp add: FAILED_def S_OK_def)
qed

lemma class_builtin_found:
  assumes d: "objs w This = Some d"
    and sc: "scan_names (props d) (Some N) 0 = Ret None"
    and fb: "find_builtin_prop d (Some N) = Ret (Some b)"
    and r: "find_prop_name_prot (Suc n) w This (Some N) alloc = Ret (hres, r, w')"
  shows "(\<forall>a. a \<noteq> This \<longrightarrow> objs w' a = objs w a)
      \<and> (\<forall>j<length (props d). slot_at w' This j = slot_at w This j)
      \<and> (hres = E_OUTOFMEMORY \<and> r = None
          \<or> hres = S_OK \<and> r = Some (length (props d))
             \<and> slot_at w' This (length (props d))
                 = Some \<lparr>p_name = Some N, p_type = PROP_BUILTIN, p_flags = bp_flags b, p_u = U_p b\<rparr>)"
proof -
  have fp: "find_prop_name w This (Some N)
      = obind (alloc_prop w This (Some N) PROP_BUILTIN (bp_flags b)) (\<lambda>(prop, w1).
          case prop of
            None \<Rightarrow> Ret (E_OUTOFMEMORY, None, w1)
          | Some i \<Rightarrow> Ret (S_OK, Some i, upd_slot This i (\<lambda>s. s\<lparr>p_u := U_p b\<rparr>) w1))"
    using d sc fb by (simp add: find_prop_name_def)
  from r obtain h1 p1 w1 where f: "find_prop_name w This (Some N) = Ret (h1, p1, w1)"
    by (auto simp: obind_Ret)
  with fp have "obind (alloc_prop w This (Some N) PROP_BUILTIN (bp_flags b)) (\<lambda>(prop, w1).
          case prop of
            None \<Rightarrow> Ret (E_OUTOFMEMORY, None, w1)
          | Some i \<Rightarrow> Ret (S_OK, Some i, upd_slot This i (\<lambda>s. s\<lparr>p_u := U_p b\<rparr>) w1))
      = Ret (h1, p1, w1)"
    by simp
  then obtain ret wa where a: "alloc_prop w This (Some N) PROP_BUILTIN (bp_flags b) = Ret (ret, wa)"
    and k: "(case ret of
            None \<Rightarrow> Ret (E_OUTOFMEMORY, None, wa)
          | Some i \<Rightarrow> Ret (S_OK, Some i, upd_slot This i (\<lambda>s. s\<lparr>p_u := U_p b\<rparr>) wa)) = Ret (h1, p1, w1)"
    by (auto simp: obind_Ret)
  from alloc_prop_cases [OF a] d obtain d' where
    o: "objs wa = (objs w)(This \<mapsto> d')"
    and c: "props d' = props d \<and> ret = None
          \<or> (\<exists>nm. props d' = props d @ [\<lparr>p_name = nm, p_type = PROP_BUILTIN, p_flags = bp_flags b, p_u = U_unset\<rparr>]
               \<and> (nm = None \<or> nm = Some N)
               \<and> ret = (if nm = None then None else Some (length (props d))))"
    by auto
  have old: "\<forall>j<length (props d). slot_at wa This j = slot_at w This j"
    using o c d by (auto simp: slot_at_def nth_append)
  have oth: "\<forall>a. a \<noteq> This \<longrightarrow> objs wa a = objs w a"
    using o by simp
  show ?thesis
  proof (cases ret)
    case None
    with k have e: "h1 = E_OUTOFMEMORY" "p1 = None" "w1 = wa" by simp_all
    with r f have "hres = E_OUTOFMEMORY" "r = None" "w' = wa"
      by (simp_all add: FAILED_def E_OUTOFMEMORY_def)
    with old oth show ?thesis by simp
  next
    case (Some i)
    with c have il: "i = length (props d)"
      and p: "props d' = props d @ [\<lparr>p_name = Some N, p_type = PROP_BUILTIN, p_flags = bp_flags b, p_u = U_unset\<rparr>]"
      by (auto split: if_splits)
    from k Some have e: "h1 = S_OK" "p1 = Some i" "w1 = upd_slot This i (\<lambda>s. s\<lparr>p_u := U_p b\<rparr>) wa"
      by simp_all
    with r f have e2: "hres = S_OK" "r = Some i" "w' = upd_slot This i (\<lambda>s. s\<lparr>p_u := U_p b\<rparr>) wa"
      by (simp_all add: FAILED_def S_OK_def)
    have "slot_at wa This i = Some \<lparr>p_name = Some N, p_type = PROP_BUILTIN, p_flags = bp_flags b, p_u = U_unset\<rparr>"
      using o p il by (simp add: slot_at_def)
    then have "slot_at w' This (length (props d))
        = Some \<lparr>p_name = Some N, p_type = PROP_BUILTIN, p_flags = bp_flags b, p_u = U_p b\<rparr>"
      by (simp add: e2(3) il slot_at_upd_slot)
    moreover have "\<forall>j<length (props d). slot_at w' This j = slot_at w This j"
      using old by (simp add: e2(3) il slot_at_upd_slot)
    moreover have "\<forall>a. a \<noteq> This \<longrightarrow> objs w' a = objs w a"
      using oth by (simp add: e2(3) objs_upd_slot_other)
    ultimately show ?thesis using e2 il by simp
  qed
qed

lemma VariantClear_plain:
  "\<forall>p. old \<noteq> VT_DISPATCH p \<Longrightarrow> \<exists>w0. VariantClear x n w old = Ret w0 \<and> objs w0 = objs w
      \<and> alloc_ok w0 = alloc_ok w"
  by (cases old) (auto simp: VariantClear.simps)

lemma plain_value_objs: "objs w0 = objs w \<Longrightarrow> plain_value w0 v = plain_value w v"
  by (cases v) (auto simp: plain_value_def split: iface.splits)

lemma prop_put_shadows:
  assumes d: "objs w This = Some d" and i: "i < length (props d)"
    and ty: "p_type (props d ! i) = PROP_PROTREF
        \<or> p_type (props d ! i) = PROP_BUILTIN \<and> p_flags (props d ! i) AND PROPF_METHOD \<noteq> 0"
    and k: "k = length (takeWhile (\<lambda>x. x \<noteq> DISPID_PROPERTYPUT) (rgdispidNamedArgs dp))"
      "k < length (rgdispidNamedArgs dp)" "k < length (rgvarg dp)"
    and ok: "alloc_ok w" and pl: "plain_value w (rgvarg dp ! k)"
  shows "\<exists>w2. slot_at w2 This i
          = Some ((props d ! i)\<lparr>p_type := PROP_VARIANT, p_flags := PROPF_ENUM,
                               p_u := U_var (rgvarg dp ! k)\<rparr>)
      \<and> (\<forall>a. a \<noteq> This \<longrightarrow> map_option props (objs w2 a) = map_option props (objs w a))
      \<and> (\<forall>j. j \<noteq> i \<longrightarrow> slot_at w2 This j = slot_at w This j)
      \<and> prop_put x n w This i dp
          = Ret (S_OK, case on_put (builtin_info d) of
                         None \<Rightarrow> w2
                       | Some h \<Rightarrow> x_on_put x h w2 This (p_name (props d ! i)))"
proof -
  define g where "g = (\<lambda>s :: dispex_prop_t. s\<lparr>p_type := PROP_VARIANT, p_flags := PROPF_ENUM, p_u := U_var VT_EMPTY\<rparr>)"
  have e: "prop_put x n w This i dp = prop_put_value x n (upd_slot This i g w) This i dp"
    using d i ty by (auto simp: prop_put_def Let_def g_def)
  have gu: "p_u (g (props d ! i)) = U_var VT_EMPTY" by (simp add: g_def)
  have gn: "p_name (g (props d ! i)) = p_name (props d ! i)" by (simp add: g_def)
  from prop_put_plain_aux [where g = g and x = x and n = n, OF d i gu k ok pl, unfolded gn]
  show ?thesis
    unfolding e by (simp add: g_def)
qed

lemma prop_put_own_value:
  assumes d: "objs w This = Some d" and i: "i < length (props d)"
    and ty: "p_type (props d ! i) = PROP_VARIANT" and u: "p_u (props d ! i) = U_var old"
    and nd: "\<forall>p. old \<noteq> VT_DISPATCH p"
    and k: "k = length (takeWhile (\<lambda>x. x \<noteq> DISPID_PROPERTYPUT) (rgdispidNamedArgs dp))"
      "k < length (rgdispidNamedArgs dp)" "k < length (rgvarg dp)"
    and ok: "alloc_ok w" and pl: "plain_value w (rgvarg dp ! k)"
  shows "\<exists>w2. slot_at w2 This i = Some ((props d ! i)\<lparr>p_u := U_var (rgvarg dp ! k)\<rparr>)
      \<and> (\<forall>a. a \<noteq> This \<longrightarrow> map_option props (objs w2 a) = map_option props (objs w a))
      \<and> (\<forall>j. j \<noteq> i \<longrightarrow> slot_at w2 This j = slot_at w This j)
      \<and> prop_put x n w This i dp
          = Ret (S_OK, case on_put (builtin_info d) of
                         None \<Rightarrow> w2
                       | Some h \<Rightarrow> x_on_put x h w2 This (p_name (props d ! i)))"
proof -
  from VariantClear_plain [OF nd, of x n w] obtain w0 where
    c: "VariantClear x n w old = Ret w0" and o: "objs w0 = objs w" and a: "alloc_ok w0 = alloc_ok w"
    by blast
  define g where "g = (\<lambda>s :: dispex_prop_t. s\<lparr>p_u := U_var VT_EMPTY\<rparr>)"
  have d0: "objs w0 This = Some d" using d o by simp
  have e: "prop_put x n w This i dp = prop_put_value x n (upd_slot This i g w0) This i dp"
    using d i ty u c d0 by (simp add: prop_put_def Let_def g_def)
  have gu: "p_u (g (props d ! i)) = U_var VT_EMPTY" by (simp add: g_def)
  have ok0: "alloc_ok w0" using ok a by simp
  have pl0: "plain_value w0 (rgvarg dp ! k)" using pl plain_value_objs [OF o] by simp
  have gn: "p_name (g (props d ! i)) = p_name (props d ! i)" by (simp add: g_def)
  from prop_put_plain_aux [where g = g and x = x and n = n, OF d0 i gu k ok0 pl0, unfolded gn]
  show ?thesis
    unfolding e by (simp add: g_def o slot_at_objs [OF o])
qed

text \<open>
  Against claim C8 as stated. First, the object's slot 2 is the built-in accessor
  \<open>length\<close>, without the method flag: writing 5 to it hands the write to the
  descriptor, and the slot is a BUILTIN slot afterwards as before, not an own VARIANT
  slot. Second, the prototype at address 1 is held by nothing but the reserved slot 1
  of its child at address 2: writing 5 to that slot releases the prototype, whose
  count reaches zero, so that its table is destroyed; the child's \<open>prototype\<close>
  pointer still designates it, and the next resolution of an inherited name through
  the child faults.
\<close>

theorem prop_put_accessor_counterexample:
  "map_option p_type (slot_at world_accessor 2 2) = Some PROP_BUILTIN
   \<and> prop_put quiet_ext 0 world_accessor 2 2 put_5 = Ret (S_OK, world_accessor)
   \<and> map_option (length \<circ> props) (objs world_sole 1) = Some 3
   \<and> (case prop_put quiet_ext (Suc (Suc (Suc (Suc (Suc 0))))) world_sole 2 1 put_5 of
         Ret (hres, w') \<Rightarrow>
           hres = S_OK \<and> objs w' 1 = None \<and> 1 \<in> freed w'
           \<and> map_option prototype (objs w' 2) = Some (Some 1)
           \<and> find_prop_name_prot (Suc (Suc 0)) w' 2 (Some ''zip'') False = Fault
       | _ \<Rightarrow> False)"
  by (simp add: fixture_defs fixture3_defs engine_defs prop_put_def prop_put_value_def
        VariantCopy_def DISPID_PROPERTYPUT_def quiet_ext_def bsearch_loop.simps)

text \<open>
  Claim C8, amended. \<open>This\<close> is an object in the store, \<open>N\<close> a C string, \<open>i\<close> a slot
  of the object, \<open>k\<close> the position of the first argument named DISPID_PROPERTYPUT.

  \<^item> Lookup. When \<open>i\<close> is the first slot named \<open>N\<close>, resolving \<open>N\<close> on the object
    yields \<open>i\<close> and changes nothing. When no slot is named \<open>N\<close> but the object's class
    has a built-in of that name, a resolution that returns has looked at no other
    object and has changed none: it yields the new own BUILTIN slot, past the
    existing ones, or E_OUTOFMEMORY.

  \<^item> Get. On a VARIANT slot a get is the copy of the slot's own payload to the
    result variable; for a plain payload and an empty result variable it yields that
    payload and changes no table. On a BUILTIN slot it is the descriptor's \<open>invoke\<close>
    with the object as receiver, or E_NOTIMPL for a method; on a DELETED slot E_FAIL.
    Only on a PROTREF slot is it the get of the prototype's slot that the reference
    designates.

  \<^item> Put of a plain value on a heap whose next allocation succeeds. On a PROTREF
    slot, or a BUILTIN slot with the method flag, the slot becomes, in place, an
    enumerable VARIANT slot holding the value; on a VARIANT slot whose old payload
    is no dispatch pointer, the slot keeps kind and flags and holds the value. In
    both cases no other slot and no table of another object has changed when the
    class's \<open>on_put\<close> hook, if there is one, is called, and the state the hook
    leaves is returned.

  \<^item> A BUILTIN slot without the method flag is not shadowed: the put is the
    descriptor's \<open>invoke\<close>.

  \<^item> Any put, in an environment that keeps to the steps of \<open>store_evolves\<close>, keeps
    to them.
\<close>

theorem own_slot_wins_put_is_local:
  assumes "objs w This = Some d" and "cstring N"
  shows "(first_named d i N \<longrightarrow>
           find_prop_name_prot (Suc n) w This (Some N) alloc = Ret (S_OK, Some i, w))
     \<and> (\<forall>b hres r w'. scan_names (props d) (Some N) 0 = Ret None
            \<and> find_builtin_prop d (Some N) = Ret (Some b)
            \<and> find_prop_name_prot (Suc n) w This (Some N) alloc = Ret (hres, r, w')
          \<longrightarrow> (\<forall>a. a \<noteq> This \<longrightarrow> objs w' a = objs w a)
              \<and> (\<forall>j<length (props d). slot_at w' This j = slot_at w This j)
              \<and> (hres = E_OUTOFMEMORY \<and> r = None
                  \<or> hres = S_OK \<and> r = Some (length (props d))
                     \<and> slot_at w' This (length (props d))
                         = Some \<lparr>p_name = Some N, p_type = PROP_BUILTIN, p_flags = bp_flags b,
                                  p_u = U_p b\<rparr>))
     \<and> (i < length (props d) \<longrightarrow>
          (\<forall>v. p_type (props d ! i) = PROP_VARIANT \<and> p_u (props d ! i) = U_var v \<longrightarrow>
             prop_get x (Suc n) w This i dp retv = VariantCopy x n w retv v
             \<and> (alloc_ok w \<and> plain_value w v \<longrightarrow>
                  (\<exists>w'. prop_get x (Suc n) w This i dp VT_EMPTY = Ret (S_OK, v, w')
                     \<and> (\<forall>a. map_option props (objs w' a) = map_option props (objs w a)))))
          \<and> (\<forall>b. p_type (props d ! i) = PROP_BUILTIN \<and> p_u (props d ! i) = U_p b \<longrightarrow>
                prop_get x (Suc n) w This i dp retv
                  = (if bp_flags b AND PROPF_METHOD \<noteq> 0 then Ret (E_NOTIMPL, retv, w)
                     else case bp_invoke b of
                            None \<Rightarrow> Fault
                          | Some f \<Rightarrow> Ret (x_invoke x f w This DISPATCH_PROPERTYGET dp (Some retv))))
          \<and> (p_type (props d ! i) = PROP_DELETED \<longrightarrow>
                prop_get x (Suc n) w This i dp retv = Ret (E_FAIL, retv, w))
          \<and> (\<forall>r pa. p_type (props d ! i) = PROP_PROTREF \<and> p_u (props d ! i) = U_ref r
                \<and> prototype d = Some pa \<longrightarrow>
                prop_get x (Suc n) w This i dp retv = prop_get x n w pa (unat r) dp retv)
          \<and> (k = length (takeWhile (\<lambda>x. x \<noteq> DISPID_PROPERTYPUT) (rgdispidNamedArgs dp))
              \<and> k < length (rgdispidNamedArgs dp) \<and> k < length (rgvarg dp)
              \<and> alloc_ok w \<and> plain_value w (rgvarg dp ! k) \<longrightarrow>
                (p_type (props d ! i) = PROP_PROTREF
                  \<or> p_type (props d ! i) = PROP_BUILTIN \<and> p_flags (props d ! i) AND PROPF_METHOD \<noteq> 0
                 \<longrightarrow> (\<exists>w2. slot_at w2 This i
                              = Some ((props d ! i)\<lparr>p_type := PROP_VARIANT, p_flags := PROPF_ENUM,
                                                   p_u := U_var (rgvarg dp ! k)\<rparr>)
                        \<and> (\<forall>a. a \<noteq> This \<longrightarrow>
                              map_option props (objs w2 a) = map_option props (objs w a))
                        \<and> (\<forall>j. j \<noteq> i \<longrightarrow> slot_at w2 This j = slot_at w This j)
                        \<and> prop_put x n w This i dp
                            = Ret (S_OK, case on_put (builtin_info d) of
                                           None \<Rightarrow> w2
                                         | Some h \<Rightarrow> x_on_put x h w2 This (p_name (props d ! i)))))
                \<and> (\<forall>old. p_type (props d ! i) = PROP_VARIANT \<and> p_u (props d ! i) = U_var old
                      \<and> (\<forall>p. old \<noteq> VT_DISPATCH p)
                    \<longrightarrow> (\<exists>w2. slot_at w2 This i
                                 = Some ((props d ! i)\<lparr>p_u := U_var (rgvarg dp ! k)\<rparr>)
                           \<and> (\<forall>a. a \<noteq> This \<longrightarrow>
                                 map_option props (objs w2 a) = map_option props (objs w a))
                           \<and> (\<forall>j. j \<noteq> i \<longrightarrow> slot_at w2 This j = slot_at w This j)
                           \<and> prop_put x n w This i dp
                               = Ret (S_OK, case on_put (builtin_info d) of
                                              None \<Rightarrow> w2
                                            | Some h \<Rightarrow> x_on_put x h w2 This (p_name (props d ! i))))))
          \<and> (\<forall>b f. p_type (props d ! i) = PROP_BUILTIN \<and> p_flags (props d ! i) AND PROPF_METHOD = 0
                \<and> p_u (props d ! i) = U_p b \<and> bp_invoke b = Some f
              \<longrightarrow> prop_put x n w This i dp
                    = Ret (fst (x_invoke x f w This DISPATCH_PROPERTYPUT dp None),
                        snd (snd (x_invoke x f w This DISPATCH_PROPERTYPUT dp None))))
          \<and> (\<forall>hres w'. ext_ok x \<and> prop_put x n w This i dp = Ret (hres, w')
              \<longrightarrow> store_evolves w w'))"
proof (intro conjI impI allI)
  assume f: "first_named d i N"
  show "find_prop_name_prot (Suc n) w This (Some N) alloc = Ret (S_OK, Some i, w)"
    by (rule own_slot_found [OF assms(1) f assms(2)])
next
  fix b hres r w'
  assume a: "scan_names (props d) (Some N) 0 = Ret None
            \<and> find_builtin_prop d (Some N) = Ret (Some b)
            \<and> find_prop_name_prot (Suc n) w This (Some N) alloc = Ret (hres, r, w')"
  note t = class_builtin_found [OF assms(1), of N b n alloc hres r w']
  from a t show "hres = E_OUTOFMEMORY \<and> r = None
      \<or> hres = S_OK \<and> r = Some (length (props d))
         \<and> slot_at w' This (length (props d))
             = Some \<lparr>p_name = Some N, p_type = PROP_BUILTIN, p_flags = bp_flags b, p_u = U_p b\<rparr>"
    by blast
  {
    fix a'
    assume "a' \<noteq> This"
    with a t show "objs w' a' = objs w a'" by blast
  }
  {
    fix j
    assume "j < length (props d)"
    with a t show "slot_at w' This j = slot_at w This j" by blast
  }
next
  fix v
  assume i: "i < length (props d)"
    and a: "p_type (props d ! i) = PROP_VARIANT \<and> p_u (props d ! i) = U_var v"
  with assms(1) show e: "prop_get x (Suc n) w This i dp retv = VariantCopy x n w retv v"
    by simp
  {
    assume "alloc_ok w \<and> plain_value w v"
    with VariantCopy_plain [of w v x n]
    show "\<exists>w'. prop_get x (Suc n) w This i dp VT_EMPTY = Ret (S_OK, v, w')
        \<and> (\<forall>a. map_option props (objs w' a) = map_option props (objs w a))"
      using assms(1) i a by auto
  }
next
  fix b
  assume "i < length (props d)" and "p_type (props d ! i) = PROP_BUILTIN \<and> p_u (props d ! i) = U_p b"
  with assms(1) show "prop_get x (Suc n) w This i dp retv
      = (if bp_flags b AND PROPF_METHOD \<noteq> 0 then Ret (E_NOTIMPL, retv, w)
         else case bp_invoke b of
                None \<Rightarrow> Fault
              | Some f \<Rightarrow> Ret (x_invoke x f w This DISPATCH_PROPERTYGET dp (Some retv)))"
    by simp
next
  assume "i < length (props d)" and "p_type (props d ! i) = PROP_DELETED"
  with assms(1) show "prop_get x (Suc n) w This i dp retv = Ret (E_FAIL, retv, w)"
    by simp
next
  fix r pa
  assume "i < length (props d)"
    and "p_type (props d ! i) = PROP_PROTREF \<and> p_u (props d ! i) = U_ref r \<and> prototype d = Some pa"
  with assms(1) show "prop_get x (Suc n) w This i dp retv = prop_get x n w pa (unat r) dp retv"
    by simp
next
  assume i: "i < length (props d)"
    and k: "k = length (takeWhile (\<lambda>x. x \<noteq> DISPID_PROPERTYPUT) (rgdispidNamedArgs dp))
              \<and> k < length (rgdispidNamedArgs dp) \<and> k < length (rgvarg dp)
              \<and> alloc_ok w \<and> plain_value w (rgvarg dp ! k)"
    and ty: "p_type (props d ! i) = PROP_PROTREF
        \<or> p_type (props d ! i) = PROP_BUILTIN \<and> p_flags (props d ! i) AND PROPF_METHOD \<noteq> 0"
  from k have k1: "k = length (takeWhile (\<lambda>x. x \<noteq> DISPID_PROPERTYPUT) (rgdispidNamedArgs dp))"
    and k2: "k < length (rgdispidNamedArgs dp)" and k3: "k < length (rgvarg dp)"
    and ok: "alloc_ok w" and pl: "plain_value w (rgvarg dp ! k)"
    by blast+
  show "\<exists>w2. slot_at w2 This i
            = Some ((props d ! i)\<lparr>p_type := PROP_VARIANT, p_flags := PROPF_ENUM,
                                 p_u := U_var (rgvarg dp ! k)\<rparr>)
        \<and> (\<forall>a. a \<noteq> This \<longrightarrow> map_option props (objs w2 a) = map_option props (objs w a))
        \<and> (\<forall>j. j \<noteq> i \<longrightarrow> slot_at w2 This j = slot_at w This j)
        \<and> prop_put x n w This i dp
            = Ret (S_OK, case on_put (builtin_info d) of
                           None \<Rightarrow> w2
                         | Some h \<Rightarrow> x_on_put x h w2 This (p_name (props d ! i)))"
    by (rule prop_put_shadows [OF assms(1) i ty k1 k2 k3 ok pl])
next
  fix old
  assume i: "i < length (props d)"
    and k: "k = length (takeWhile (\<lambda>x. x \<noteq> DISPID_PROPERTYPUT) (rgdispidNamedArgs dp))
              \<and> k < length (rgdispidNamedArgs dp) \<and> k < length (rgvarg dp)
              \<and> alloc_ok w \<and> plain_value w (rgvarg dp ! k)"
    and ty: "p_type (props d ! i) = PROP_VARIANT \<and> p_u (props d ! i) = U_var old
                      \<and> (\<forall>p. old \<noteq> VT_DISPATCH p)"
  from k have k1: "k = length (takeWhile (\<lambda>x. x \<noteq> DISPID_PROPERTYPUT) (rgdispidNamedArgs dp))"
    and k2: "k < length (rgdispidNamedArgs dp)" and k3: "k < length (rgvarg dp)"
    and ok: "alloc_ok w" and pl: "plain_value w (rgvarg dp ! k)"
    by blast+
  from ty have t1: "p_type (props d ! i) = PROP_VARIANT" and t2: "p_u (props d ! i) = U_var old"
    and t3: "\<forall>p. old \<noteq> VT_DISPATCH p"
    by blast+
  show "\<exists>w2. slot_at w2 This i = Some ((props d ! i)\<lparr>p_u := U_var (rgvarg dp ! k)\<rparr>)
        \<and> (\<forall>a. a \<noteq> This \<longrightarrow> map_option props (objs w2 a) = map_option props (objs w a))
        \<and> (\<forall>j. j \<noteq> i \<longrightarrow> slot_at w2 This j = slot_at w This j)
        \<and> prop_put x n w This i dp
            = Ret (S_OK, case on_put (builtin_info d) of
                           None \<Rightarrow> w2
                         | Some h \<Rightarrow> x_on_put x h w2 This (p_name (props d ! i)))"
    by (rule prop_put_own_value [OF assms(1) i t1 t2 t3 k1 k2 k3 ok pl])
next
  fix b f
  assume "i < length (props d)"
    and "p_type (props d ! i) = PROP_BUILTIN \<and> p_flags (props d ! i) AND PROPF_METHOD = 0
      \<and> p_u (props d ! i) = U_p b \<and> bp_invoke b = Some f"
  then show "prop_put x n w This i dp
      = Ret (fst (x_invoke x f w This DISPATCH_PROPERTYPUT dp None),
          snd (snd (x_invoke x f w This DISPATCH_PROPERTYPUT dp None)))"
    using assms(1) by (simp add: prop_put_def Let_def split: prod.splits)
next
  fix hres w'
  assume "ext_ok x \<and> prop_put x n w This i dp = Ret (hres, w')"
  then show "store_evolves w w'" by (auto dest: prop_put_evolves)
qed

theorem own_slot_wins_put_is_local_witness:
  "objs world_own 2 = Some own_O \<and> cstring ''greet'' \<and> first_named own_O 2 ''greet''
   \<and> find_prop_name_prot (Suc 0) world_own 2 (Some ''greet'') False = Ret (S_OK, Some 2, world_own)
   \<and> (\<exists>w'. prop_get quiet_ext (Suc 0) world_own 2 2 put_5 VT_EMPTY = Ret (S_OK, VT_I4 7, w')
         \<and> (\<forall>a. map_option props (objs w' a) = map_option props (objs world_own a)))
   \<and> (\<exists>w2. prop_put quiet_ext 0 world_own 2 2 put_5 = Ret (S_OK, w2)
         \<and> slot_at w2 2 2 = Some \<lparr>p_name = Some ''greet'', p_type = PROP_VARIANT,
                                    p_flags = PROPF_ENUM, p_u = U_var (VT_I4 5)\<rparr>
         \<and> slot_at w2 2 1 = slot_at world_own 2 1
         \<and> map_option props (objs w2 1) = Some (props shadow_P)
         \<and> store_evolves world_own w2)
   \<and> (\<exists>w2. prop_put quiet_ext (Suc 0) world_shadow 2 2 put_5 = Ret (S_OK, w2)
         \<and> slot_at w2 2 2 = Some \<lparr>p_name = Some ''greet'', p_type = PROP_VARIANT,
                                    p_flags = PROPF_ENUM, p_u = U_var (VT_I4 5)\<rparr>
         \<and> slot_at w2 2 1 = slot_at world_shadow 2 1
         \<and> map_option props (objs w2 1) = Some (props shadow_P))
   \<and> prop_get quiet_ext (Suc (Suc 0)) world_shadow 2 2 put_5 VT_EMPTY
        = prop_get quiet_ext (Suc 0) world_shadow 1 2 put_5 VT_EMPTY
   \<and> prop_get quiet_ext (Suc 0) world_own 2 0 put_5 VT_EMPTY = Ret (E_FAIL, VT_EMPTY, world_own)
   \<and> prop_get quiet_ext (Suc 0) world_accessor 2 2 put_5 VT_EMPTY = Ret (S_OK, VT_EMPTY, world_accessor)
   \<and> prop_put quiet_ext 0 world_accessor 2 2 put_5 = Ret (S_OK, world_accessor)
   \<and> (\<exists>w'. find_prop_name_prot (Suc 0) world_lazy 2 (Some ''length'') False = Ret (S_OK, Some 2, w')
         \<and> objs w' 1 = objs world_lazy 1
         \<and> slot_at w' 2 1 = slot_at world_lazy 2 1
         \<and> slot_at w' 2 2 = Some \<lparr>p_name = Some ''length'', p_type = PROP_BUILTIN, p_flags = 0,
                                    p_u = U_p length_desc\<rparr>)"
proof -
  have o1: "objs world_own 2 = Some own_O" by (simp add: world_own_def)
  have o2: "objs world_shadow 2 = Some shadow_O" by (simp add: world_shadow_def)
  have o3: "objs world_accessor 2 = Some accessor_O" by (simp add: world_accessor_def)
  have o4: "objs world_lazy 2 = Some lazy_O" by (simp add: world_lazy_def)
  have cs: "cstring ''greet''" by (simp add: cstring_def)
  have cl: "cstring ''length''" by (simp add: cstring_def)
  have fn: "first_named own_O 2 ''greet''" by (simp add: first_named_def own_O_def cstring_def)
  have i1: "2 < length (props own_O)" by (simp add: own_O_def)
  have i2: "2 < length (props shadow_O)" by (simp add: shadow_O_def)
  have i3: "2 < length (props accessor_O)" by (simp add: accessor_O_def)
  have kc1: "(0 :: nat) = length (takeWhile (\<lambda>x. x \<noteq> DISPID_PROPERTYPUT) (rgdispidNamedArgs put_5))
      \<and> 0 < length (rgdispidNamedArgs put_5) \<and> 0 < length (rgvarg put_5)
      \<and> alloc_ok world_own \<and> plain_value world_own (rgvarg put_5 ! 0)"
    by (simp add: put_5_def alloc_ok_def plain_value_def world_own_def)
  have kc2: "(0 :: nat) = length (takeWhile (\<lambda>x. x \<noteq> DISPID_PROPERTYPUT) (rgdispidNamedArgs put_5))
      \<and> 0 < length (rgdispidNamedArgs put_5) \<and> 0 < length (rgvarg put_5)
      \<and> alloc_ok world_shadow \<and> plain_value world_shadow (rgvarg put_5 ! 0)"
    by (simp add: put_5_def alloc_ok_def plain_value_def world_shadow_def)
  note T1 = own_slot_wins_put_is_local [where w = world_own and This = 2 and d = own_O
      and N = "''greet''" and i = 2 and n = 0 and alloc = False and x = quiet_ext and dp = put_5
      and retv = VT_EMPTY and k = 0, OF o1 cs]
  note T5 = own_slot_wins_put_is_local [where w = world_shadow and This = 2 and d = shadow_O
      and N = "''greet''" and i = 2 and n = "Suc 0" and alloc = False and x = quiet_ext and dp = put_5
      and retv = VT_EMPTY and k = 0, OF o2 cs]
  note T6 = own_slot_wins_put_is_local [where w = world_own and This = 2 and d = own_O
      and N = "''greet''" and i = 0 and n = 0 and alloc = False and x = quiet_ext and dp = put_5
      and retv = VT_EMPTY and k = 0, OF o1 cs]
  note T3 = own_slot_wins_put_is_local [where w = world_accessor and This = 2 and d = accessor_O
      and N = "''length''" and i = 2 and n = 0 and alloc = False and x = quiet_ext and dp = put_5
      and retv = VT_EMPTY and k = 0, OF o3 cl]
  note T4 = own_slot_wins_put_is_local [where w = world_lazy and This = 2 and d = lazy_O
      and N = "''length''" and i = 2 and n = 0 and alloc = False and x = quiet_ext and dp = put_5
      and retv = VT_EMPTY and k = 0, OF o4 cl]
  have g1: "find_prop_name_prot (Suc 0) world_own 2 (Some ''greet'') False
      = Ret (S_OK, Some 2, world_own)"
    by (rule T1 [THEN conjunct1, THEN mp, OF fn])
  note R1 = T1 [THEN conjunct2, THEN conjunct2, THEN mp, OF i1]
  have ty1: "p_type (props own_O ! 2) = PROP_VARIANT \<and> p_u (props own_O ! 2) = U_var (VT_I4 7)"
    by (simp add: own_O_def)
  have ap1: "alloc_ok world_own \<and> plain_value world_own (VT_I4 7)"
    by (simp add: alloc_ok_def plain_value_def world_own_def)
  have g2: "\<exists>w'. prop_get quiet_ext (Suc 0) world_own 2 2 put_5 VT_EMPTY = Ret (S_OK, VT_I4 7, w')
      \<and> (\<forall>a. map_option props (objs w' a) = map_option props (objs world_own a))"
    by (rule R1 [THEN conjunct1, THEN spec, THEN mp, OF ty1, THEN conjunct2, THEN mp, OF ap1])
  note P1 = R1 [THEN conjunct2, THEN conjunct2, THEN conjunct2, THEN conjunct2]
  have ty1': "p_type (props own_O ! 2) = PROP_VARIANT \<and> p_u (props own_O ! 2) = U_var (VT_I4 7)
      \<and> (\<forall>p. VT_I4 7 \<noteq> VT_DISPATCH p)"
    by (simp add: own_O_def)
  from P1 [THEN conjunct1, THEN mp, OF kc1, THEN conjunct2, THEN spec, THEN mp, OF ty1']
  obtain w2 where
    a1: "slot_at w2 2 2 = Some ((props own_O ! 2)\<lparr>p_u := U_var (rgvarg put_5 ! 0)\<rparr>)"
    and a2: "\<forall>a. a \<noteq> 2 \<longrightarrow> map_option props (objs w2 a) = map_option props (objs world_own a)"
    and a3: "\<forall>j. j \<noteq> 2 \<longrightarrow> slot_at w2 2 j = slot_at world_own 2 j"
    and a4: "prop_put quiet_ext 0 world_own 2 2 put_5
        = Ret (S_OK, case on_put (builtin_info own_O) of
                       None \<Rightarrow> w2
                     | Some h \<Rightarrow> x_on_put quiet_ext h w2 2 (p_name (props own_O ! 2)))"
    by (elim exE conjE) (rule that; assumption)
  from a4 have a5: "prop_put quiet_ext 0 world_own 2 2 put_5 = Ret (S_OK, w2)"
    by (simp add: own_O_def dispex_info_def)
  have a6: "store_evolves world_own w2"
    by (rule P1 [THEN conjunct2, THEN conjunct2, THEN spec, THEN spec, THEN mp,
          OF conjI, OF ext_ok_quiet a5])
  have g3: "\<exists>w2. prop_put quiet_ext 0 world_own 2 2 put_5 = Ret (S_OK, w2)
         \<and> slot_at w2 2 2 = Some \<lparr>p_name = Some ''greet'', p_type = PROP_VARIANT,
                                    p_flags = PROPF_ENUM, p_u = U_var (VT_I4 5)\<rparr>
         \<and> slot_at w2 2 1 = slot_at world_own 2 1
         \<and> map_option props (objs w2 1) = Some (props shadow_P)
         \<and> store_evolves world_own w2"
    using a1 a2 a3 a5 a6 by (intro exI [of _ w2]) (simp add: own_O_def put_5_def world_own_def)
  note R2 = T5 [THEN conjunct2, THEN conjunct2, THEN mp, OF i2]
  note P2 = R2 [THEN conjunct2, THEN conjunct2, THEN conjunct2, THEN conjunct2]
  have ty2: "p_type (props shadow_O ! 2) = PROP_PROTREF
      \<or> p_type (props shadow_O ! 2) = PROP_BUILTIN \<and> p_flags (props shadow_O ! 2) AND PROPF_METHOD \<noteq> 0"
    by (simp add: shadow_O_def)
  from P2 [THEN conjunct1, THEN mp, OF kc2, THEN conjunct1, THEN mp, OF ty2]
  obtain w3 where
    b1: "slot_at w3 2 2 = Some ((props shadow_O ! 2)\<lparr>p_type := PROP_VARIANT, p_flags := PROPF_ENUM,
                                   p_u := U_var (rgvarg put_5 ! 0)\<rparr>)"
    and b2: "\<forall>a. a \<noteq> 2 \<longrightarrow> map_option props (objs w3 a) = map_option props (objs world_shadow a)"
    and b3: "\<forall>j. j \<noteq> 2 \<longrightarrow> slot_at w3 2 j = slot_at world_shadow 2 j"
    and b4: "prop_put quiet_ext (Suc 0) world_shadow 2 2 put_5
        = Ret (S_OK, case on_put (builtin_info shadow_O) of
                       None \<Rightarrow> w3
                     | Some h \<Rightarrow> x_on_put quiet_ext h w3 2 (p_name (props shadow_O ! 2)))"
    by (elim exE conjE) (rule that; assumption)
  from b4 have b5: "prop_put quiet_ext (Suc 0) world_shadow 2 2 put_5 = Ret (S_OK, w3)"
    by (simp add: shadow_O_def dispex_info_def)
  have g4: "\<exists>w2. prop_put quiet_ext (Suc 0) world_shadow 2 2 put_5 = Ret (S_OK, w2)
         \<and> slot_at w2 2 2 = Some \<lparr>p_name = Some ''greet'', p_type = PROP_VARIANT,
                                    p_flags = PROPF_ENUM, p_u = U_var (VT_I4 5)\<rparr>
         \<and> slot_at w2 2 1 = slot_at world_shadow 2 1
         \<and> map_option props (objs w2 1) = Some (props shadow_P)"
    using b1 b2 b3 b5 by (intro exI [of _ w3]) (simp add: shadow_O_def put_5_def world_shadow_def)
  have ty5: "p_type (props shadow_O ! 2) = PROP_PROTREF \<and> p_u (props shadow_O ! 2) = U_ref 2
      \<and> prototype shadow_O = Some 1"
    by (simp add: shadow_O_def)
  have "prop_get quiet_ext (Suc (Suc 0)) world_shadow 2 2 put_5 VT_EMPTY
      = prop_get quiet_ext (Suc 0) world_shadow 1 (unat (2 :: DWORD)) put_5 VT_EMPTY"
    by (rule R2 [THEN conjunct2, THEN conjunct2, THEN conjunct2, THEN conjunct1,
          THEN spec, THEN spec, THEN mp, OF ty5])
  then have g7: "prop_get quiet_ext (Suc (Suc 0)) world_shadow 2 2 put_5 VT_EMPTY
      = prop_get quiet_ext (Suc 0) world_shadow 1 2 put_5 VT_EMPTY"
    by simp
  have i0: "0 < length (props own_O)" by (simp add: own_O_def)
  have ty6: "p_type (props own_O ! 0) = PROP_DELETED" by (simp add: own_O_def)
  have g8: "prop_get quiet_ext (Suc 0) world_own 2 0 put_5 VT_EMPTY = Ret (E_FAIL, VT_EMPTY, world_own)"
    by (rule T6 [THEN conjunct2, THEN conjunct2, THEN mp, OF i0,
          THEN conjunct2, THEN conjunct2, THEN conjunct1, THEN mp, OF ty6])
  note R3 = T3 [THEN conjunct2, THEN conjunct2, THEN mp, OF i3]
  have ty3g: "p_type (props accessor_O ! 2) = PROP_BUILTIN \<and> p_u (props accessor_O ! 2) = U_p length_desc"
    by (simp add: accessor_O_def)
  have "prop_get quiet_ext (Suc 0) world_accessor 2 2 put_5 VT_EMPTY
      = (if bp_flags length_desc AND PROPF_METHOD \<noteq> 0 then Ret (E_NOTIMPL, VT_EMPTY, world_accessor)
         else case bp_invoke length_desc of
                None \<Rightarrow> Fault
              | Some f \<Rightarrow> Ret (x_invoke quiet_ext f world_accessor 2 DISPATCH_PROPERTYGET put_5
                                (Some VT_EMPTY)))"
    by (rule R3 [THEN conjunct2, THEN conjunct1, THEN spec, THEN mp, OF ty3g])
  then have g9: "prop_get quiet_ext (Suc 0) world_accessor 2 2 put_5 VT_EMPTY
      = Ret (S_OK, VT_EMPTY, world_accessor)"
    by (simp add: length_desc_def quiet_ext_def)
  have ty3: "p_type (props accessor_O ! 2) = PROP_BUILTIN
      \<and> p_flags (props accessor_O ! 2) AND PROPF_METHOD = 0
      \<and> p_u (props accessor_O ! 2) = U_p length_desc \<and> bp_invoke length_desc = Some 0"
    by (simp add: accessor_O_def length_desc_def)
  have "prop_put quiet_ext 0 world_accessor 2 2 put_5
      = Ret (fst (x_invoke quiet_ext 0 world_accessor 2 DISPATCH_PROPERTYPUT put_5 None),
          snd (snd (x_invoke quiet_ext 0 world_accessor 2 DISPATCH_PROPERTYPUT put_5 None)))"
    by (rule R3 [THEN conjunct2, THEN conjunct2, THEN conjunct2, THEN conjunct2, THEN conjunct2,
          THEN conjunct1, THEN spec, THEN spec, THEN mp, OF ty3])
  then have g5: "prop_put quiet_ext 0 world_accessor 2 2 put_5 = Ret (S_OK, world_accessor)"
    by (simp add: quiet_ext_def)
  have e6: "case find_prop_name_prot (Suc 0) world_lazy 2 (Some ''length'') False of
      Ret (h, r, w') \<Rightarrow> h = S_OK | _ \<Rightarrow> False"
    by (simp add: fixture_defs fixture3_defs engine_defs bsearch_loop.simps)
  then obtain r6 w6 where
    p6: "find_prop_name_prot (Suc 0) world_lazy 2 (Some ''length'') False = Ret (S_OK, r6, w6)"
    by (cases "find_prop_name_prot (Suc 0) world_lazy 2 (Some ''length'') False") auto
  have s6: "scan_names (props lazy_O) (Some ''length'') 0 = Ret None"
    by (simp add: lazy_O_def)
  have f6: "find_builtin_prop lazy_O (Some ''length'') = Ret (Some length_desc)"
    by (simp add: lazy_O_def length_desc_def find_builtin_prop_def bsearch_loop.simps Let_def)
  note L6 = T4 [THEN conjunct2, THEN conjunct1, THEN spec, THEN spec, THEN spec, THEN spec,
      THEN mp, OF conjI, OF s6 conjI, OF f6 p6]
  have ne: "S_OK \<noteq> E_OUTOFMEMORY" by (simp add: S_OK_def E_OUTOFMEMORY_def)
  have len: "length (props lazy_O) = 2" by (simp add: lazy_O_def)
  have fl: "bp_flags length_desc = 0" by (simp add: length_desc_def)
  note L6' = L6 [unfolded len fl]
  from L6' ne have r6: "r6 = Some 2"
    and s62: "slot_at w6 2 2 = Some \<lparr>p_name = Some ''length'', p_type = PROP_BUILTIN, p_flags = 0,
                                    p_u = U_p length_desc\<rparr>"
    by blast+
  have o6: "objs w6 1 = objs world_lazy 1"
    by (rule L6' [THEN conjunct1, THEN spec, THEN mp]) simp
  have s61: "slot_at w6 2 1 = slot_at world_lazy 2 1"
    by (rule L6' [THEN conjunct2, THEN conjunct1, THEN spec, THEN mp]) simp
  from p6 r6 s62 o6 s61
  have g6: "\<exists>w'. find_prop_name_prot (Suc 0) world_lazy 2 (Some ''length'') False
          = Ret (S_OK, Some 2, w')
         \<and> objs w' 1 = objs world_lazy 1
         \<and> slot_at w' 2 1 = slot_at world_lazy 2 1
         \<and> slot_at w' 2 2 = Some \<lparr>p_name = Some ''length'', p_type = PROP_BUILTIN, p_flags = 0,
                                    p_u = U_p length_desc\<rparr>"
    by blast
  from o1 cs fn g1 g2 g3 g4 g7 g8 g9 g5 g6 show ?thesis by blast
qed

section \<open>The life of a slot\<close>



lemma slot_named_grows:
  assumes g: "grows_with K w w'" and s: "slot_named w a i name"
  shows "slot_named w' a i name"
proof -
  from s obtain d where d: "objs w a = Some d" and i: "i < length (props d)"
    by (auto simp: slot_named_def slot_at_def split: option.splits if_splits)
  from g have "rel_option (table_grows (K a)) (objs w a) (objs w' a)" by (simp add: grows_with_def)
  with d obtain d' new where d': "objs w' a = Some d'" and p: "props d' = props d @ new"
    by (cases "objs w' a") (auto simp: table_grows_def)
  from d i d' p have "slot_at w' a i = slot_at w a i"
    by (simp add: slot_at_def nth_append)
  with s show ?thesis by (simp add: slot_named_def)
qed













section \<open>The reserved prototype slot\<close>

lemma table_step_reserved: "table_step d d' \<Longrightarrow> reserved_ok d \<Longrightarrow> reserved_ok d'"
  unfolding table_step_def reserved_ok_def slot_step_def
  by (elim conjE) (erule allE [of _ 1], auto)

lemma store_step_reserved:
  assumes "store_step w w'" and "objs w a = Some d" and "reserved_ok d"
  shows "\<exists>d'. objs w' a = Some d' \<and> reserved_ok d' \<and> length (props d) \<le> length (props d')
      \<and> p_type (props d' ! 1) = p_type (props d ! 1)"
proof -
  from assms(1) have "rel_option table_step (objs w a) (objs w' a)" by (simp add: store_step_def)
  with assms(2) obtain d' where d': "objs w' a = Some d'" and t: "table_step d d'"
    by (cases "objs w' a") auto
  have "p_type (props d' ! 1) = p_type (props d ! 1)"
    using t assms(3) unfolding table_step_def reserved_ok_def slot_step_def
    by (elim conjE) (erule allE [of _ 1], auto)
  with d' t table_step_reserved [OF t assms(3)] show ?thesis
    by (auto simp: table_step_def)
qed

lemma store_evolves_reserved:
  assumes "store_evolves w w'" and "objs w a = Some d" and "reserved_ok d"
  shows "a \<in> freed w' \<or> (\<exists>d'. objs w' a = Some d' \<and> reserved_ok d'
      \<and> p_type (props d' ! 1) = p_type (props d ! 1))"
proof (cases "a \<in> freed w'")
  case False
  from assms(1,2) have "a \<in> freed w' \<or> (\<exists>d'. objs w' a = Some d' \<and> table_step d d')"
    by (simp add: store_evolves_def)
  with False obtain d' where d': "objs w' a = Some d'" and t: "table_step d d'"
    by blast
  have "p_type (props d' ! 1) = p_type (props d ! 1)"
    using t assms(3) unfolding table_step_def reserved_ok_def slot_step_def
    by (elim conjE) (erule allE [of _ 1], auto)
  with d' table_step_reserved [OF t assms(3)] show ?thesis by blast
qed simp

lemma get_flags_plain:
  assumes "objs w This = Some d" and "i < length (props d)" and "p_type (props d ! i) \<noteq> PROP_PROTREF"
    and "get_flags n w This i = Ret (fl, w1)"
  shows "fl = p_flags (props d ! i) \<and> w1 = w"
  using assms by (cases n) auto

lemma enum_loop_skips_reserved:
  "objs w This = Some d \<Longrightarrow> reserved_ok d \<Longrightarrow> enum_loop n w This i k = Ret (hres, pid, w')
    \<Longrightarrow> hres = S_OK
    \<Longrightarrow> \<exists>j d'. pid = Some (prop_to_id j) \<and> j \<noteq> 1 \<and> objs w' This = Some d' \<and> j < length (props d')"
proof (induction k arbitrary: w i d)
  case 0
  then show ?case by (simp add: S_OK_def S_FALSE_def)
next
  case (Suc k)
  from Suc.prems have i: "i < length (props d)"
    by (auto split: if_splits)
  show ?case
  proof (cases "p_name (props d ! i) = None")
    case True
    with Suc.prems i have "enum_loop n w This (Suc i) k = Ret (hres, pid, w')" by simp
    from Suc.IH [OF Suc.prems(1,2) this Suc.prems(4)] show ?thesis .
  next
    case False
    with Suc.prems i obtain fl w1 where g: "get_flags n w This i = Ret (fl, w1)"
      and k1: "(if fl AND PROPF_ENUM \<noteq> 0 then Ret (S_OK, Some (prop_to_id i), w1)
              else enum_loop n w1 This (Suc i) k) = Ret (hres, pid, w')"
      by (auto simp: obind_Ret)
    from store_step_reserved [OF get_flags_step [OF g] Suc.prems(1,2)]
    obtain d1 where d1: "objs w1 This = Some d1" "reserved_ok d1" "length (props d) \<le> length (props d1)"
      by blast
    show ?thesis
    proof (cases "fl AND PROPF_ENUM \<noteq> 0")
      case True
      have "i \<noteq> 1"
      proof
        assume i1: "i = 1"
        with Suc.prems(2) have "p_type (props d ! i) \<noteq> PROP_PROTREF" "p_flags (props d ! i) = 0"
          by (auto simp: reserved_ok_def)
        with get_flags_plain [OF Suc.prems(1) i _ g] have "fl = 0" by simp
        with True show False by simp
      qed
      moreover from k1 True have "pid = Some (prop_to_id i)" "w' = w1" by simp_all
      ultimately show ?thesis using d1 i by auto
    next
      case False
      with k1 have "enum_loop n w1 This (Suc i) k = Ret (hres, pid, w')" by simp
      from Suc.IH [OF d1(1,2) this Suc.prems(4)] show ?thesis .
    qed
  qed
qed

lemma GetNextDispID_skips_reserved:
  assumes "objs w This = Some d" and "reserved_ok d"
    and r: "DispatchEx_GetNextDispID n w This grfdex did = Ret (hres, pid, w')" and "hres = S_OK"
  shows "\<exists>j d'. pid = Some (prop_to_id j) \<and> j \<noteq> 1 \<and> objs w' This = Some d' \<and> j < length (props d')"
proof -
  from r obtain h1 w1 where
    f: "(if did = DISPID_STARTENUM then fill_protrefs n w This else Ret (S_OK, w)) = Ret (h1, w1)"
    and k1: "(if FAILED h1 then Ret (h1, None, w1)
         else
           case objs w1 This of
             None \<Rightarrow> Fault
           | Some d \<Rightarrow>
               (case get_prop d (did + 1) of
                  None \<Rightarrow> Ret (S_FALSE, Some DISPID_STARTENUM, w1)
                | Some i \<Rightarrow> enum_loop n w1 This i (length (props d) - i))) = Ret (hres, pid, w')"
    by (auto simp: DispatchEx_GetNextDispID_def obind_Ret)
  have s1: "store_step w w1"
    using f by (auto split: if_splits dest: fill_protrefs_grows grows_with_step)
  from store_step_reserved [OF s1 assms(1,2)]
  obtain d1 where d1: "objs w1 This = Some d1" "reserved_ok d1" by blast
  have nf: "\<not> FAILED h1"
  proof
    assume "FAILED h1"
    with k1 have "hres = h1" by simp
    with \<open>FAILED h1\<close> \<open>hres = S_OK\<close> show False by (simp add: FAILED_def S_OK_def)
  qed
  from k1 nf d1 \<open>hres = S_OK\<close> obtain i where
    "enum_loop n w1 This i (length (props d1) - i) = Ret (hres, pid, w')"
    by (auto simp: S_OK_def S_FALSE_def split: option.splits)
  from enum_loop_skips_reserved [OF d1 this \<open>hres = S_OK\<close>] show ?thesis .
qed

lemma prop_to_id_one: "j < 2 ^ 32 \<Longrightarrow> prop_to_id j = prop_to_id 1 \<Longrightarrow> j = 1"
proof -
  assume j: "j < 2 ^ 32" and e: "prop_to_id j = prop_to_id 1"
  have "unat (word_of_nat j :: 32 word) = j"
    using j by (simp add: unat_of_nat)
  moreover have "unat (word_of_nat 1 :: 32 word) = 1" by simp
  ultimately show "j = 1" using e by (simp add: prop_to_id_def)
qed

lemma slot_at_reserved:
  "objs w a = Some d \<Longrightarrow> map_option p_type (slot_at w a 1) = Some PROP_VARIANT
    \<Longrightarrow> map_option p_flags (slot_at w a 1) = Some 0 \<Longrightarrow> reserved_ok d"
  by (auto simp: slot_at_def reserved_ok_def split: if_splits)

lemma init_dispex_reserved:
  assumes r: "init_dispex x n w dispex sctx info proto = Ret (hres, w')" and nf: "\<not> FAILED hres"
  shows "\<exists>d'. objs w' dispex = Some d' \<and> reserved_ok d'"
  using r nf
  by (auto simp: init_dispex_def Let_def obind_Ret DispatchEx_AddRef_def heap_strdupW_def
        jsdisp_set_prot_prop_def upd_slot_def reserved_ok_def FAILED_def E_OUTOFMEMORY_def S_OK_def
      dest!: heap_alloc_eq
      split: option.splits prod.splits if_splits)

text \<open>
  Claim C10. The reserved slot 1 is never enumerable. \<open>reserved_ok\<close> says that an
  object has its slot 1, with empty flags and of kind DELETED or VARIANT. A
  successful \<open>init_dispex\<close> establishes it; \<open>jsdisp_set_prot_prop\<close> makes slot 1 a
  VARIANT slot with empty flags; a put to slot 1, and a put to any slot of any
  object, keeps it for as long as the object lives, provided the code outside the
  file that the put reaches keeps to the steps of \<open>store_evolves\<close>; every flags
  query, name resolution and enumeration on any object keeps it; and on an object
  that satisfies it, \<open>GetNextDispID\<close> never answers with slot 1: the identifier it
  yields is that of a slot other than slot 1 (and is not the identifier 1 as long as
  the table has at most \<open>2 ^ 32\<close> slots).
\<close>

theorem reserved_slot_never_enumerated:
  "(init_dispex x n w This sctx info proto = Ret (h1, w1) \<and> \<not> FAILED h1 \<longrightarrow>
      (\<exists>d1. objs w1 This = Some d1 \<and> reserved_ok d1))
   \<and> (jsdisp_set_prot_prop w This pa = Ret (h2, w2) \<and> \<not> FAILED h2 \<longrightarrow>
      (\<exists>d2. objs w2 This = Some d2 \<and> reserved_ok d2 \<and> p_type (props d2 ! 1) = PROP_VARIANT))
   \<and> (objs w This = Some d \<and> reserved_ok d \<longrightarrow>
        (ext_ok x \<and> prop_put x n w This 1 dp = Ret (h3, w3) \<longrightarrow>
           This \<in> freed w3
           \<or> (\<exists>d3. objs w3 This = Some d3 \<and> reserved_ok d3
                 \<and> p_type (props d3 ! 1) = p_type (props d ! 1)))
        \<and> (ext_ok x \<and> prop_put x n w b i dp = Ret (h6, w6) \<longrightarrow>
           This \<in> freed w6 \<or> (\<exists>d6. objs w6 This = Some d6 \<and> reserved_ok d6))
        \<and> (get_flags n w b i = Ret (fl4, w4)
            \<or> find_prop_name_prot n w b name alloc = Ret (h4, r4, w4)
            \<or> DispatchEx_GetNextDispID n w b grfdex did = Ret (h4, p4, w4) \<longrightarrow>
           (\<exists>d4. objs w4 This = Some d4 \<and> reserved_ok d4))
        \<and> (DispatchEx_GetNextDispID n w This grfdex did = Ret (h5, pid, w5) \<and> h5 = S_OK \<longrightarrow>
           (\<exists>j d5. pid = Some (prop_to_id j) \<and> j \<noteq> 1 \<and> objs w5 This = Some d5
              \<and> j < length (props d5)
              \<and> (length (props d5) \<le> 2 ^ 32 \<longrightarrow> pid \<noteq> Some (prop_to_id 1)))))"
proof (intro conjI impI)
  assume "init_dispex x n w This sctx info proto = Ret (h1, w1) \<and> \<not> FAILED h1"
  then show "\<exists>d1. objs w1 This = Some d1 \<and> reserved_ok d1"
    using init_dispex_reserved by blast
next
  assume a: "jsdisp_set_prot_prop w This pa = Ret (h2, w2) \<and> \<not> FAILED h2"
  then obtain d0 where "objs w This = Some d0"
    by (auto simp: jsdisp_set_prot_prop_def split: option.splits)
  with a obtain d2 where d2: "objs w2 This = Some d2"
    by (auto simp: jsdisp_set_prot_prop_def upd_slot_def split: if_splits)
  from a set_prot_prop_frame [of w This pa h2 w2]
  have "map_option p_type (slot_at w2 This 1) = Some PROP_VARIANT"
    "map_option p_flags (slot_at w2 This 1) = Some 0"
    by auto
  with d2 show "\<exists>d2. objs w2 This = Some d2 \<and> reserved_ok d2 \<and> p_type (props d2 ! 1) = PROP_VARIANT"
    by (auto intro: slot_at_reserved simp: slot_at_def split: if_splits)
next
  assume a: "objs w This = Some d \<and> reserved_ok d"
    and p: "ext_ok x \<and> prop_put x n w This 1 dp = Ret (h3, w3)"
  from p have "store_evolves w w3" by (auto dest: prop_put_evolves)
  from store_evolves_reserved [OF this] a
  show "This \<in> freed w3
      \<or> (\<exists>d3. objs w3 This = Some d3 \<and> reserved_ok d3 \<and> p_type (props d3 ! 1) = p_type (props d ! 1))"
    by blast
next
  assume a: "objs w This = Some d \<and> reserved_ok d"
    and p: "ext_ok x \<and> prop_put x n w b i dp = Ret (h6, w6)"
  from p have "store_evolves w w6" by (auto dest: prop_put_evolves)
  from store_evolves_reserved [OF this] a
  show "This \<in> freed w6 \<or> (\<exists>d6. objs w6 This = Some d6 \<and> reserved_ok d6)"
    by blast
next
  assume a: "objs w This = Some d \<and> reserved_ok d"
    and p: "get_flags n w b i = Ret (fl4, w4)
            \<or> find_prop_name_prot n w b name alloc = Ret (h4, r4, w4)
            \<or> DispatchEx_GetNextDispID n w b grfdex did = Ret (h4, p4, w4)"
  have "store_step w w4"
    using p
    by (auto dest: get_flags_step find_prop_name_prot_grows grows_with_step GetNextDispID_step)
  from store_step_reserved [OF this] a
  show "\<exists>d4. objs w4 This = Some d4 \<and> reserved_ok d4" by blast
next
  assume a: "objs w This = Some d \<and> reserved_ok d"
    and g: "DispatchEx_GetNextDispID n w This grfdex did = Ret (h5, pid, w5) \<and> h5 = S_OK"
  from GetNextDispID_skips_reserved [of w This d n grfdex did h5 pid w5] a g
  obtain j d5 where j: "pid = Some (prop_to_id j)" "j \<noteq> 1" "objs w5 This = Some d5"
    "j < length (props d5)"
    by blast
  have "length (props d5) \<le> 2 ^ 32 \<longrightarrow> pid \<noteq> Some (prop_to_id 1)"
  proof
    assume "length (props d5) \<le> 2 ^ 32"
    with j(4) have "j < 2 ^ 32" by simp
    with prop_to_id_one [of j] j(1,2) show "pid \<noteq> Some (prop_to_id 1)" by auto
  qed
  with j show "\<exists>j d5. pid = Some (prop_to_id j) \<and> j \<noteq> 1 \<and> objs w5 This = Some d5
              \<and> j < length (props d5)
              \<and> (length (props d5) \<le> 2 ^ 32 \<longrightarrow> pid \<noteq> Some (prop_to_id 1))"
    by blast
qed

theorem reserved_slot_never_enumerated_witness:
  "reserved_ok own_O \<and> ext_ok quiet_ext
   \<and> (\<exists>w'. init_dispex quiet_ext 0 world_blank 3 0 dispex_info (Some 1) = Ret (S_OK, w')
          \<and> (\<exists>d. objs w' 3 = Some d \<and> reserved_ok d))
   \<and> (\<exists>w'. prop_put quiet_ext (Suc 0) world_own 2 1 put_5 = Ret (S_OK, w')
          \<and> (\<exists>d. objs w' 2 = Some d \<and> reserved_ok d \<and> p_u (props d ! 1) = U_var (VT_I4 5))
          \<and> map_option ref (objs w' 1) = Some 1)
   \<and> (\<exists>pid w'. DispatchEx_GetNextDispID (Suc 0) world_own 2 0 0 = Ret (S_OK, pid, w')
          \<and> pid = Some 2 \<and> pid \<noteq> Some (prop_to_id 1))"
proof -
  have ro: "reserved_ok own_O" by (simp add: reserved_ok_def own_O_def)
  have oo: "objs world_own 2 = Some own_O" by (simp add: world_own_def)
  have nf: "\<not> FAILED S_OK" by (simp add: FAILED_def S_OK_def)
  have "case init_dispex quiet_ext 0 world_blank 3 0 dispex_info (Some 1) of
      Ret (h, w') \<Rightarrow> h = S_OK | _ \<Rightarrow> False"
    by (simp add: world_blank_def fixture_defs fixture2_defs engine_defs init_dispex_def
          DispatchEx_AddRef_def jsdisp_set_prot_prop_def)
  then obtain w1 where i1: "init_dispex quiet_ext 0 world_blank 3 0 dispex_info (Some 1) = Ret (S_OK, w1)"
    by (cases "init_dispex quiet_ext 0 world_blank 3 0 dispex_info (Some 1)") auto
  have "case prop_put quiet_ext (Suc 0) world_own 2 1 put_5 of
      Ret (h, w') \<Rightarrow> h = S_OK \<and> map_option p_u (slot_at w' 2 1) = Some (U_var (VT_I4 5))
          \<and> map_option ref (objs w' 1) = Some 1 \<and> 2 \<notin> freed w'
    | _ \<Rightarrow> False"
    by (simp add: fixture_defs fixture3_defs engine_defs prop_put_def prop_put_value_def
          VariantCopy_def DISPID_PROPERTYPUT_def)
  then obtain w3 where p3: "prop_put quiet_ext (Suc 0) world_own 2 1 put_5 = Ret (S_OK, w3)"
    and u3: "map_option p_u (slot_at w3 2 1) = Some (U_var (VT_I4 5))"
    and r3: "map_option ref (objs w3 1) = Some 1" and f3: "2 \<notin> freed w3"
    by (cases "prop_put quiet_ext (Suc 0) world_own 2 1 put_5") auto
  have "case DispatchEx_GetNextDispID (Suc 0) world_own 2 0 0 of
      Ret (h, pid, w') \<Rightarrow> h = S_OK \<and> pid = Some 2 | _ \<Rightarrow> False"
    by (simp add: fixture_defs fixture3_defs engine_defs DispatchEx_GetNextDispID_def
          DISPID_STARTENUM_def prop_to_id_def)
  then obtain w5 where
    g5: "DispatchEx_GetNextDispID (Suc 0) world_own 2 0 0 = Ret (S_OK, Some 2, w5)"
    by (cases "DispatchEx_GetNextDispID (Suc 0) world_own 2 0 0") auto
  note t = reserved_slot_never_enumerated
  have a: "\<exists>d. objs w1 3 = Some d \<and> reserved_ok d"
    using t [THEN conjunct1, THEN mp, OF conjI, OF i1 nf] .
  note t3 = t [THEN conjunct2, THEN conjunct2, THEN mp, OF conjI, OF oo ro]
  have "2 \<in> freed w3
      \<or> (\<exists>d3. objs w3 2 = Some d3 \<and> reserved_ok d3 \<and> p_type (props d3 ! 1) = p_type (props own_O ! 1))"
    using t3 [THEN conjunct1, THEN mp, OF conjI, OF ext_ok_quiet p3] .
  with f3 u3 have c: "\<exists>d. objs w3 2 = Some d \<and> reserved_ok d \<and> p_u (props d ! 1) = U_var (VT_I4 5)"
    by (auto simp: slot_at_def reserved_ok_def split: if_splits)
  have "\<exists>j d5. Some 2 = Some (prop_to_id j) \<and> j \<noteq> 1 \<and> objs w5 2 = Some d5
              \<and> j < length (props d5)
              \<and> (length (props d5) \<le> 2 ^ 32 \<longrightarrow> Some 2 \<noteq> Some (prop_to_id 1))"
    using t3 [THEN conjunct2, THEN conjunct2, THEN conjunct2, THEN mp, OF conjI, OF g5 refl] .
  then have b: "(Some 2 :: DISPID option) \<noteq> Some (prop_to_id 1)"
    by (simp add: prop_to_id_def)
  show ?thesis using ro ext_ok_quiet i1 a p3 c r3 g5 b by blast
qed
section \<open>Enough fuel\<close>

lemma obind_OutOfFuel:
  "obind m f = OutOfFuel \<longleftrightarrow> m = OutOfFuel \<or> (\<exists>x. m = Ret x \<and> f x = OutOfFuel)"
  by (cases m) auto

lemma store_step_chain: "store_step w w' \<Longrightarrow> chain_ok n w a \<Longrightarrow> chain_ok n w' a"
proof (induction n arbitrary: a)
  case 0
  then show ?case by simp
next
  case (Suc n)
  from Suc.prems(2) obtain d where d: "objs w a = Some d"
    by (auto split: option.splits)
  from Suc.prems(1) have "rel_option table_step (objs w a) (objs w' a)"
    by (simp add: store_step_def)
  with d obtain d' where d': "objs w' a = Some d'" and p: "prototype d' = prototype d"
    by (cases "objs w' a") (auto simp: table_step_def)
  show ?case
  proof (cases "prototype d")
    case None
    with d' p show ?thesis by simp
  next
    case (Some pa)
    with Suc.prems(2) d have "chain_ok n w pa" by simp
    from Suc.IH [OF Suc.prems(1) this] d' p Some show ?thesis by simp
  qed
qed

lemma scan_names_fuel: "scan_names ps name k \<noteq> OutOfFuel"
  by (induction ps arbitrary: k) (auto split: option.splits)

lemma bsearch_loop_fuel: "bsearch_loop ps name mn mx \<noteq> OutOfFuel"
proof (induction ps name mn mx rule: bsearch_loop.induct)
  case (1 ps name mn mx)
  show ?case
  proof
    assume o: "bsearch_loop ps name mn mx = OutOfFuel"
    define i where "i = (mn + mx) sdiv 2"
    from o have c: "mn \<le> mx" "\<not> (2147483647 < mn + mx \<or> mn + mx < - 2147483648)"
      "\<not> (i < 0 \<or> int (length ps) \<le> i)"
      by (subst (asm) bsearch_loop.simps, auto simp: Let_def i_def split: if_splits)+
    from o c obtain n m where nm: "name = Some n" "bp_name (ps ! nat i) = Some m"
      by (subst (asm) bsearch_loop.simps) (auto simp: Let_def i_def split: if_splits option.splits)
    from o c nm have r: "strcmpW n m \<noteq> 0"
      by (subst (asm) bsearch_loop.simps) (auto simp: Let_def i_def split: if_splits)
    from o c nm r have "(if strcmpW n m < 0 then bsearch_loop ps name mn (i - 1)
        else bsearch_loop ps name (i + 1) mx) = OutOfFuel"
      by (subst (asm) bsearch_loop.simps) (auto simp: Let_def i_def split: if_splits)
    moreover have "strcmpW n m < 0 \<Longrightarrow> bsearch_loop ps name mn (i - 1) \<noteq> OutOfFuel"
      by (rule "1.IH"(1) [of i "Some n" "Some m" n m "strcmpW n m"])
         (use c nm r in \<open>simp_all add: i_def\<close>)
    moreover have "\<not> strcmpW n m < 0 \<Longrightarrow> bsearch_loop ps name (i + 1) mx \<noteq> OutOfFuel"
      by (rule "1.IH"(2) [of i "Some n" "Some m" n m "strcmpW n m"])
         (use c nm r in \<open>simp_all add: i_def\<close>)
    ultimately show False by (auto split: if_splits)
  qed
qed

lemma find_builtin_prop_fuel: "find_builtin_prop d name \<noteq> OutOfFuel"
  using bsearch_loop_fuel
  by (auto simp: find_builtin_prop_def Let_def split: outcome.splits option.splits)

lemma alloc_prop_fuel: "alloc_prop w This name ty fl \<noteq> OutOfFuel"
  by (auto simp: alloc_prop_def Let_def split: option.splits prod.splits if_splits)

lemma alloc_protref_fuel: "alloc_protref w This name r \<noteq> OutOfFuel"
  by (auto simp: alloc_protref_def obind_OutOfFuel alloc_prop_fuel split: option.splits)

lemma find_prop_name_fuel: "find_prop_name w This name \<noteq> OutOfFuel"
  by (auto simp: find_prop_name_def obind_OutOfFuel scan_names_fuel find_builtin_prop_fuel
        alloc_prop_fuel split: option.splits)

lemma find_prop_name_prot_fuel:
  "chain_ok n w This \<Longrightarrow> find_prop_name_prot n w This name alloc \<noteq> OutOfFuel"
proof (induction n arbitrary: w This alloc)
  case 0
  then show ?case by simp
next
  case (Suc n)
  show ?case
  proof
    assume o: "find_prop_name_prot (Suc n) w This name alloc = OutOfFuel"
    obtain h1 p1 w1 where f: "find_prop_name w This name = Ret (h1, p1, w1)"
      using o find_prop_name_fuel [of w This name]
      by (cases "find_prop_name w This name") auto
    have nf: "\<not> FAILED h1" using o f by auto
    have p1: "p1 = None" using o f nf by (auto split: option.splits)
    have k: "(case objs w1 This of
                None \<Rightarrow> Fault
              | Some d \<Rightarrow>
                  obind
                    (case prototype d of
                       None \<Rightarrow> Ret (S_OK, None, w1)
                     | Some pa \<Rightarrow> find_prop_name_prot n w1 pa name False)
                    (\<lambda>(hres, pprop, w2).
                      if FAILED hres then Ret (hres, None, w2)
                      else
                        case (prototype d, pprop) of
                          (Some pa, Some j) \<Rightarrow>
                            (case objs w2 pa of
                               None \<Rightarrow> Fault
                             | Some pd \<Rightarrow>
                                 if length (props pd) \<le> j then Fault
                                 else
                                   obind (alloc_protref w2 This (p_name (props pd ! j)) (word_of_nat j))
                                     (\<lambda>(ret, w3).
                                       case ret of
                                         None \<Rightarrow> Ret (E_OUTOFMEMORY, None, w3)
                                       | Some i \<Rightarrow> Ret (S_OK, Some i, w3)))
                        | _ \<Rightarrow>
                            if alloc then
                              obind (alloc_prop w2 This name PROP_VARIANT PROPF_ENUM) (\<lambda>(ret, w3).
                                case ret of
                                  None \<Rightarrow> Ret (E_OUTOFMEMORY, None, w3)
                                | Some i \<Rightarrow>
                                    Ret (S_OK, Some i,
                                      upd_slot This i (\<lambda>s. s\<lparr>p_u := U_var VT_EMPTY\<rparr>) w3))
                            else Ret (S_OK, None, w2))) = OutOfFuel"
      using o f nf p1 by simp
    have s1: "store_step w w1"
      using find_prop_name_Ret [OF f] by (rule grows_with_step)
    have c1: "chain_ok (Suc n) w1 This" using store_step_chain [OF s1 Suc.prems] .
    then obtain d where d: "objs w1 This = Some d" by (auto split: option.splits)
    have rec: "(case prototype d of
                 None \<Rightarrow> Ret (S_OK, None, w1)
               | Some pa \<Rightarrow> find_prop_name_prot n w1 pa name False) \<noteq> OutOfFuel"
    proof (cases "prototype d")
      case None
      then show ?thesis by simp
    next
      case (Some pa)
      with c1 d have "chain_ok n w1 pa" by simp
      from Suc.IH [OF this] Some show ?thesis by simp
    qed
    from k d rec show False
      by (auto simp: obind_OutOfFuel alloc_protref_fuel alloc_prop_fuel
            split: if_splits option.splits prod.splits)
  qed
qed

lemma get_flags_fuel: "chain_ok n w This \<Longrightarrow> get_flags n w This i \<noteq> OutOfFuel"
proof (induction n arbitrary: This i)
  case 0
  then show ?case by simp
next
  case (Suc n)
  then show ?case
    by (auto split: option.splits prop_u.splits)
qed

lemma VariantCopy_fuel: "VariantCopy x n w VT_EMPTY src \<noteq> OutOfFuel"
  by (cases src)
     (auto simp: VariantCopy_def VariantClear.simps DispatchEx_AddRef_def Let_def
        split: prod.splits iface.splits option.splits)

lemma prop_get_fuel: "chain_ok n w This \<Longrightarrow> prop_get x n w This i dp VT_EMPTY \<noteq> OutOfFuel"
proof (induction n arbitrary: This i)
  case 0
  then show ?case by simp
next
  case (Suc n)
  then show ?case
    by (auto simp: VariantCopy_fuel split: option.splits prop_u.splits prop_type_t.splits prod.splits)
qed

lemma fill_loop_fuel: "fill_loop w This its j \<noteq> OutOfFuel"
  by (induction its arbitrary: w j)
     (auto simp: obind_OutOfFuel find_prop_name_fuel alloc_protref_fuel split: option.splits)

lemma fill_protrefs_fuel: "chain_ok n w This \<Longrightarrow> fill_protrefs n w This \<noteq> OutOfFuel"
proof (induction n arbitrary: w This)
  case 0
  then show ?case by simp
next
  case (Suc n)
  then show ?case
    by (auto simp: obind_OutOfFuel fill_loop_fuel split: option.splits)
qed

lemma enum_loop_fuel: "chain_ok n w This \<Longrightarrow> enum_loop n w This i k \<noteq> OutOfFuel"
proof (induction k arbitrary: w i)
  case 0
  then show ?case by simp
next
  case (Suc k)
  show ?case
  proof
    assume o: "enum_loop n w This i (Suc k) = OutOfFuel"
    then obtain d where d: "objs w This = Some d" and i: "\<not> length (props d) \<le> i"
      by (auto split: option.splits if_splits)
    show False
    proof (cases "p_name (props d ! i) = None")
      case True
      with o d i have "enum_loop n w This (Suc i) k = OutOfFuel" by simp
      with Suc.IH [OF Suc.prems] show False by simp
    next
      case False
      with o d i get_flags_fuel [OF Suc.prems, of i] obtain fl w1 where
        g: "get_flags n w This i = Ret (fl, w1)" and e: "enum_loop n w1 This (Suc i) k = OutOfFuel"
        by (auto simp: obind_OutOfFuel split: if_splits)
      from store_step_chain [OF get_flags_step [OF g] Suc.prems] have "chain_ok n w1 This" .
      from Suc.IH [OF this] e show False by simp
    qed
  qed
qed

text \<open>
  Enough fuel. When the prototype chain of an object ends within \<open>n\<close> objects, all
  of them in the store, none of the functions that follow the chain runs out of the
  fuel \<open>n\<close>: each returns a result or faults (\<open>prop_get\<close> with an empty result
  variable, as \<open>DispatchEx_InvokeEx\<close> calls it, so that the copy releases nothing).
\<close>

theorem enough_fuel:
  assumes "chain_ok n w This"
  shows "find_prop_name_prot n w This name alloc \<noteq> OutOfFuel
     \<and> get_flags n w This i \<noteq> OutOfFuel
     \<and> prop_get x n w This i dp VT_EMPTY \<noteq> OutOfFuel
     \<and> fill_protrefs n w This \<noteq> OutOfFuel
     \<and> DispatchEx_GetDispID n w This name grfdex \<noteq> OutOfFuel
     \<and> DispatchEx_GetNextDispID n w This grfdex did \<noteq> OutOfFuel"
proof (intro conjI)
  show "find_prop_name_prot n w This name alloc \<noteq> OutOfFuel"
    using assms by (rule find_prop_name_prot_fuel)
  show "get_flags n w This i \<noteq> OutOfFuel" using assms by (rule get_flags_fuel)
  show "prop_get x n w This i dp VT_EMPTY \<noteq> OutOfFuel" using assms by (rule prop_get_fuel)
  show "fill_protrefs n w This \<noteq> OutOfFuel" using assms by (rule fill_protrefs_fuel)
  show "DispatchEx_GetDispID n w This name grfdex \<noteq> OutOfFuel"
    using find_prop_name_prot_fuel [OF assms]
    by (auto simp: DispatchEx_GetDispID_def obind_OutOfFuel split: if_splits option.splits)
  show "DispatchEx_GetNextDispID n w This grfdex did \<noteq> OutOfFuel"
  proof
    assume o: "DispatchEx_GetNextDispID n w This grfdex did = OutOfFuel"
    then obtain h1 w1 where
      f: "(if did = DISPID_STARTENUM then fill_protrefs n w This else Ret (S_OK, w)) = Ret (h1, w1)"
      and k: "(case objs w1 This of
             None \<Rightarrow> Fault
           | Some d \<Rightarrow>
               (case get_prop d (did + 1) of
                  None \<Rightarrow> Ret (S_FALSE, Some DISPID_STARTENUM, w1)
                | Some i \<Rightarrow> enum_loop n w1 This i (length (props d) - i))) = OutOfFuel"
      using fill_protrefs_fuel [OF assms]
      by (auto simp: DispatchEx_GetNextDispID_def obind_OutOfFuel split: if_splits)
    have "store_step w w1"
      using f by (auto split: if_splits dest: fill_protrefs_grows grows_with_step)
    from store_step_chain [OF this assms] have "chain_ok n w1 This" .
    from enum_loop_fuel [OF this] k show False
      by (auto split: option.splits)
  qed
qed

end
